theory Spec2Isabelle
  imports Main "HOL-Library.Word"
begin

section \<open>The grid: \<open>SudokuMap<SudokuDimension>\<close>\<close>

text \<open>
  The class template \<open>SudokuMap<SudokuDimension>\<close> of \<open>src/0_Test/main.cpp\<close> holds one
  field, \<open>std::vector<int> elements_\<close>. The template parameter \<open>SudokuDimension\<close> is the
  first argument \<open>N\<close> of every function below. C++ \<open>int\<close> values are modelled as
  \<open>int\<close> (the claims are about dimensions whose square fits an \<open>int\<close>, where nothing
  overflows); \<open>size_t\<close>, the type of the coordinates of \<open>getElem\<close> and \<open>setElem\<close>, is a
  64-bit word, so that the flat index wraps as it does in the program. The conversion of
  an \<open>int\<close> argument to \<open>size_t\<close> is \<open>of_int\<close>.
\<close>

type_synonym size_t = "64 word"

type_synonym grid = "int list"

datatype error =
    DimensionMismatch  \<comment> \<open>the \<open>std::runtime_error\<close> thrown by the constructor\<close>
  | OutOfRange         \<comment> \<open>the \<open>std::out_of_range\<close> thrown by \<open>std::vector::at\<close>\<close>
  | DivisionByZero     \<comment> \<open>integer division by a zero sub-grid size\<close>

text \<open>The constructor (lines 77-85): it keeps the elements and checks their number only.
  The definition is the constructor for a dimension with \<open>N * N < 2 ^ 31\<close> only: there the
  comparison of the \<open>size_t\<close> size with the \<open>int\<close> product of line 80 is the comparison
  of the two numbers. For a larger dimension the \<open>int\<close> product overflows, and nothing
  is stated about the constructor.\<close>

definition SudokuMap :: "int \<Rightarrow> int list \<Rightarrow> error + grid" where
  "SudokuMap N elements =
     (if int (length elements) \<noteq> N * N then Inl DimensionMismatch else Inr elements)"

text \<open>\<open>elements_.at(x + y * SudokuDimension)\<close> (lines 87-95): the sum is computed in
  \<open>size_t\<close>, and \<open>at\<close> checks the flat index against the size of the vector.\<close>

definition flat_index :: "int \<Rightarrow> size_t \<Rightarrow> size_t \<Rightarrow> nat" where
  "flat_index N x y = unat (x + y * of_int N)"

definition getElem :: "int \<Rightarrow> grid \<Rightarrow> size_t \<Rightarrow> size_t \<Rightarrow> error + int" where
  "getElem N elements x y =
     (if flat_index N x y < length elements then Inr (elements ! flat_index N x y)
      else Inl OutOfRange)"

definition setElem :: "int \<Rightarrow> grid \<Rightarrow> size_t \<Rightarrow> size_t \<Rightarrow> int \<Rightarrow> error + grid" where
  "setElem N elements x y i =
     (if flat_index N x y < length elements then Inr (elements[flat_index N x y := i])
      else Inl OutOfRange)"

section \<open>The candidate check: \<open>SudokuMap::isCandidate\<close>\<close>

text \<open>C++ integer division truncates towards zero.\<close>

definition c_div :: "int \<Rightarrow> int \<Rightarrow> int" where
  "c_div a b = sgn a * sgn b * (\<bar>a\<bar> div \<bar>b\<bar>)"

text \<open>\<open>constexpr int subgridSize = std::sqrt(SudokuDimension)\<close> (line 118): the square
  root, truncated to an \<open>int\<close>, found here by counting up.\<close>

function sqrt_from :: "int \<Rightarrow> int \<Rightarrow> int" where
  "sqrt_from n r = (if 0 \<le> r \<and> (r + 1) * (r + 1) \<le> n then sqrt_from n (r + 1) else r)"
  by pat_completeness auto
termination
proof (relation "measure (\<lambda>(n, r). nat (n - r))")
  show "wf (measure (\<lambda>(n, r). nat (n - r)))" by simp
next
  fix n r :: int
  assume a: "0 \<le> r \<and> (r + 1) * (r + 1) \<le> n"
  then have "0 \<le> r * (r + 1)" by simp
  moreover have "(r + 1) * (r + 1) = r * (r + 1) + (r + 1)"
    by (simp add: algebra_simps)
  ultimately have "r < n" using a by linarith
  then show "((n, r + 1), (n, r)) \<in> measure (\<lambda>(n, r). nat (n - r))" by simp
qed

declare sqrt_from.simps [simp del]

definition subgridSize :: "int \<Rightarrow> int" where
  "subgridSize N = sqrt_from N 0"

text \<open>The first loop (lines 100-106), from \<open>col\<close> on.\<close>

function row_loop :: "int \<Rightarrow> grid \<Rightarrow> int \<Rightarrow> int \<Rightarrow> int \<Rightarrow> error + bool" where
  "row_loop N m x v col =
     (if col < N then
        (case getElem N m (of_int x) (of_int col) of
           Inl e \<Rightarrow> Inl e
         | Inr e \<Rightarrow> if e = v then Inr False else row_loop N m x v (col + 1))
      else Inr True)"
  by pat_completeness auto
termination
  by (relation "measure (\<lambda>(N, m, x, v, col). nat (N - col))") auto

declare row_loop.simps [simp del]

text \<open>The second loop (lines 109-115), from \<open>row\<close> on.\<close>

function col_loop :: "int \<Rightarrow> grid \<Rightarrow> int \<Rightarrow> int \<Rightarrow> int \<Rightarrow> error + bool" where
  "col_loop N m y v row =
     (if row < N then
        (case getElem N m (of_int row) (of_int y) of
           Inl e \<Rightarrow> Inl e
         | Inr e \<Rightarrow> if e = v then Inr False else col_loop N m y v (row + 1))
      else Inr True)"
  by pat_completeness auto
termination
  by (relation "measure (\<lambda>(N, m, y, v, row). nat (N - row))") auto

declare col_loop.simps [simp del]

text \<open>The nested loops over the sub-grid (lines 122-131): the inner loop over \<open>col\<close> up to
  \<open>colEnd\<close>, the outer loop over \<open>row\<close> up to \<open>rowEnd\<close>.\<close>

function subgrid_inner :: "int \<Rightarrow> grid \<Rightarrow> int \<Rightarrow> int \<Rightarrow> int \<Rightarrow> int \<Rightarrow> error + bool" where
  "subgrid_inner N m v row colEnd col =
     (if col < colEnd then
        (case getElem N m (of_int row) (of_int col) of
           Inl e \<Rightarrow> Inl e
         | Inr e \<Rightarrow> if e = v then Inr False else subgrid_inner N m v row colEnd (col + 1))
      else Inr True)"
  by pat_completeness auto
termination
  by (relation "measure (\<lambda>(N, m, v, row, colEnd, col). nat (colEnd - col))") auto

declare subgrid_inner.simps [simp del]

function subgrid_outer ::
  "int \<Rightarrow> grid \<Rightarrow> int \<Rightarrow> int \<Rightarrow> int \<Rightarrow> int \<Rightarrow> int \<Rightarrow> error + bool" where
  "subgrid_outer N m v rowEnd colStart colEnd row =
     (if row < rowEnd then
        (case subgrid_inner N m v row colEnd colStart of
           Inl e \<Rightarrow> Inl e
         | Inr found \<Rightarrow>
             if \<not> found then Inr False
             else subgrid_outer N m v rowEnd colStart colEnd (row + 1))
      else Inr True)"
  by pat_completeness auto
termination
  by (relation "measure (\<lambda>(N, m, v, rowEnd, colStart, colEnd, row). nat (rowEnd - row))") auto

declare subgrid_outer.simps [simp del]

text \<open>\<open>isCandidate\<close> (lines 97-135). Each loop returns \<open>false\<close> at the first conflict; the
  division by a sub-grid size of zero is an error of its own.\<close>

definition isCandidate :: "int \<Rightarrow> grid \<Rightarrow> int \<Rightarrow> int \<Rightarrow> int \<Rightarrow> error + bool" where
  "isCandidate N m x y v =
     (case row_loop N m x v 0 of
        Inl e \<Rightarrow> Inl e
      | Inr rowFree \<Rightarrow>
          if \<not> rowFree then Inr False
          else (case col_loop N m y v 0 of
            Inl e \<Rightarrow> Inl e
          | Inr colFree \<Rightarrow>
              if \<not> colFree then Inr False
              else if subgridSize N = 0 then Inl DivisionByZero
              else
                (let subgridRowStart = c_div x (subgridSize N) * subgridSize N;
                     subgridColStart = c_div y (subgridSize N) * subgridSize N
                 in subgrid_outer N m v (subgridRowStart + subgridSize N)
                      subgridColStart (subgridColStart + subgridSize N) subgridRowStart)))"

section \<open>The search: \<open>SudokuSolver::run\<close>\<close>

text \<open>
  \<open>run\<close> takes the grid by reference and returns a \<open>shared_ptr\<close> that is null when no
  solution was found. An execution that returns is modelled by the pair of the pointer's
  target (\<open>None\<close> for \<open>nullptr\<close>) and the value the caller's grid holds at the return; an
  execution that throws is \<open>Inl\<close> of the error.

  Below \<open>maxParallelizationDepth_\<close> the candidates are tried by OpenMP tasks that race for
  the shared \<open>solution\<close>, so \<open>run\<close> has more than one possible execution. The model returns
  the list of all outcomes that some schedule of the tasks produces (a list read as a
  set: order and repetitions carry no meaning).
\<close>

type_synonym outcome = "error + (grid option \<times> grid)"

text \<open>Lines 169-178: the cell that \<open>run\<close> looks at after moving to the next row.\<close>

definition advance_x :: "int \<Rightarrow> int \<Rightarrow> int" where
  "advance_x N x = (if x \<ge> N then 0 else x)"

definition advance_y :: "int \<Rightarrow> int \<Rightarrow> int \<Rightarrow> int" where
  "advance_y N x y = (if x \<ge> N then y + 1 else y)"

text \<open>Line 187: the test that chooses the OpenMP branch.\<close>

definition takes_parallel_branch :: "int \<Rightarrow> int \<Rightarrow> bool" where
  "takes_parallel_branch maxParallelizationDepth depth \<longleftrightarrow> depth < maxParallelizationDepth"

text \<open>Lines 233-236 of the sequential loop: a non-null \<open>subSolution\<close> is returned at once,
  a null one lets the loop go on (\<open>rest\<close> is what the remaining iterations do).\<close>

definition seq_continue :: "outcome list \<Rightarrow> grid \<Rightarrow> outcome list \<Rightarrow> outcome list" where
  "seq_continue subs sudoku rest =
     concat (map (\<lambda>sub. case sub of
                     Inl e \<Rightarrow> [Inl e]
                   | Inr (subSolution, _) \<Rightarrow>
                       if subSolution \<noteq> None then [Inr (subSolution, sudoku)] else rest) subs)"

text \<open>
  The join of the tasks of one parallel region (lines 204-221). Each task is given by
  the list of its possible outcomes. An exception that leaves a task ends the program,
  so every error of a task is an outcome of the region. A solution of a task is the
  region's result in the schedule where that task enters the critical section first
  (\<open>if (!solution)\<close> keeps the first one), provided every task can finish. The region
  returns \<open>nullptr\<close> when every task can return \<open>nullptr\<close>.
\<close>

definition task_errors :: "outcome list \<Rightarrow> error list" where
  "task_errors t = concat (map (\<lambda>sub. case sub of Inl e \<Rightarrow> [e] | Inr _ \<Rightarrow> []) t)"

definition task_solutions :: "outcome list \<Rightarrow> grid list" where
  "task_solutions t =
     concat (map (\<lambda>sub. case sub of Inr (Some g, _) \<Rightarrow> [g] | _ \<Rightarrow> []) t)"

definition can_finish :: "outcome list \<Rightarrow> bool" where
  "can_finish t = list_ex (\<lambda>sub. case sub of Inl _ \<Rightarrow> False | Inr _ \<Rightarrow> True) t"

definition can_return_null :: "outcome list \<Rightarrow> bool" where
  "can_return_null t = list_ex (\<lambda>sub. case sub of Inr (None, _) \<Rightarrow> True | _ \<Rightarrow> False) t"

definition omp_join :: "outcome list list \<Rightarrow> grid \<Rightarrow> outcome list" where
  "omp_join tasks sudoku =
     map Inl (concat (map task_errors tasks))
     @ (if list_all can_finish tasks
        then map (\<lambda>g. Inr (Some g, sudoku)) (concat (map task_solutions tasks)) else [])
     @ (if list_all can_return_null tasks then [Inr (None, sudoku)] else [])"

text \<open>
  \<open>run\<close> (lines 165-242) with its two loops over the candidates \<open>i\<close>:
  \<open>seq_loop\<close> is the loop of lines 226-240, \<open>par_loop\<close> the loop of lines 196-216, which
  collects one task for each accepted candidate. A task works on its own copy of the
  grid (\<open>firstprivate(sudoku)\<close>), the sequential loop on the copy \<open>newSudoku\<close>.
\<close>

text \<open>The number of rows that \<open>run\<close> still has to visit, for the termination proof.\<close>

definition run_rank_y :: "int \<Rightarrow> int \<Rightarrow> int \<Rightarrow> nat" where
  "run_rank_y N x y = (if x \<ge> N \<and> y + 1 \<ge> N then 0 else nat (N - advance_y N x y) + 1)"

function run :: "int \<Rightarrow> int \<Rightarrow> grid \<Rightarrow> int \<Rightarrow> int \<Rightarrow> int \<Rightarrow> outcome list"
  and seq_loop :: "int \<Rightarrow> int \<Rightarrow> grid \<Rightarrow> int \<Rightarrow> int \<Rightarrow> int \<Rightarrow> int \<Rightarrow> outcome list"
  and par_loop ::
    "int \<Rightarrow> int \<Rightarrow> grid \<Rightarrow> int \<Rightarrow> int \<Rightarrow> int \<Rightarrow> int \<Rightarrow> error + outcome list list"
where
  "run N maxd sudoku x y depth =
     (if x \<ge> N \<and> y + 1 \<ge> N then [Inr (Some sudoku, sudoku)]
      else
        (case getElem N sudoku (of_int (advance_x N x)) (of_int (advance_y N x y)) of
           Inl e \<Rightarrow> [Inl e]
         | Inr elem \<Rightarrow>
             if elem \<noteq> 0 then run N maxd sudoku (advance_x N x + 1) (advance_y N x y) depth
             else if takes_parallel_branch maxd depth then
               (case par_loop N maxd sudoku (advance_x N x) (advance_y N x y) depth 1 of
                  Inl e \<Rightarrow> [Inl e]
                | Inr tasks \<Rightarrow> omp_join tasks sudoku)
             else seq_loop N maxd sudoku (advance_x N x) (advance_y N x y) depth 1))"
| "seq_loop N maxd sudoku x y depth i =
     (if i \<le> N then
        (case isCandidate N sudoku x y i of
           Inl e \<Rightarrow> [Inl e]
         | Inr candidate \<Rightarrow>
             if candidate then
               (case setElem N sudoku (of_int x) (of_int y) i of
                  Inl e \<Rightarrow> [Inl e]
                | Inr newSudoku \<Rightarrow>
                    seq_continue (run N maxd newSudoku (x + 1) y (depth + 1)) sudoku
                      (seq_loop N maxd sudoku x y depth (i + 1)))
             else seq_loop N maxd sudoku x y depth (i + 1))
      else [Inr (None, sudoku)])"
| "par_loop N maxd sudoku x y depth i =
     (if i \<le> N then
        (case isCandidate N sudoku x y i of
           Inl e \<Rightarrow> Inl e
         | Inr candidate \<Rightarrow>
             (case par_loop N maxd sudoku x y depth (i + 1) of
                Inl e \<Rightarrow> Inl e
              | Inr tasks \<Rightarrow>
                  if candidate then
                    Inr ((case setElem N sudoku (of_int x) (of_int y) i of
                            Inl e \<Rightarrow> [Inl e]
                          | Inr taskSudoku \<Rightarrow> run N maxd taskSudoku (x + 1) y (depth + 1))
                         # tasks)
                  else Inr tasks))
      else Inr [])"
  by pat_completeness auto

termination
proof (relation "measures
    [\<lambda>a. case a of Inl (N, maxd, m, x, y, depth) \<Rightarrow> run_rank_y N x y
              | Inr (Inl (N, maxd, m, x, y, depth, i)) \<Rightarrow> nat (N - y) + 1
              | Inr (Inr (N, maxd, m, x, y, depth, i)) \<Rightarrow> nat (N - y) + 1,
     \<lambda>a. case a of Inl (N, maxd, m, x, y, depth) \<Rightarrow> nat (N - advance_x N x)
              | Inr (Inl (N, maxd, m, x, y, depth, i)) \<Rightarrow> nat (N - x)
              | Inr (Inr (N, maxd, m, x, y, depth, i)) \<Rightarrow> nat (N - x),
     \<lambda>a. case a of Inl _ \<Rightarrow> 1 | Inr _ \<Rightarrow> 0,
     \<lambda>a. case a of Inl _ \<Rightarrow> 0
              | Inr (Inl (N, maxd, m, x, y, depth, i)) \<Rightarrow> nat (N + 1 - i)
              | Inr (Inr (N, maxd, m, x, y, depth, i)) \<Rightarrow> nat (N + 1 - i)]")
qed (auto simp: run_rank_y_def advance_x_def advance_y_def split: if_splits)

declare run.simps [simp del] seq_loop.simps [simp del] par_loop.simps [simp del]

text \<open>
  The benchmark's call (lines 283 and 266-271): the grid is constructed from the
  elements, then \<open>run\<close> starts at cell (0, 0) with depth 1.
\<close>

definition solve :: "int \<Rightarrow> int list \<Rightarrow> int \<Rightarrow> outcome list" where
  "solve N elements maxd =
     (case SudokuMap N elements of
        Inl e \<Rightarrow> [Inl e]
      | Inr sudoku \<Rightarrow> run N maxd sudoku 0 0 1)"

section \<open>The properties of grids that the specification names\<close>

text \<open>The cell with coordinates \<open>(x, y)\<close>, both in range, of a grid of \<open>N * N\<close> elements.\<close>

definition cell :: "int \<Rightarrow> grid \<Rightarrow> int \<Rightarrow> int \<Rightarrow> int" where
  "cell N m x y = m ! nat (x + y * N)"

text \<open>The line of the cells that share the coordinate \<open>x\<close>, the line of the cells that
  share the coordinate \<open>y\<close>, and the square sub-block of side \<open>s\<close> that starts at
  \<open>(x0, y0)\<close>.\<close>

definition row_line :: "int \<Rightarrow> grid \<Rightarrow> int \<Rightarrow> int list" where
  "row_line N m x = map (\<lambda>j. cell N m x j) [0..N - 1]"

definition col_line :: "int \<Rightarrow> grid \<Rightarrow> int \<Rightarrow> int list" where
  "col_line N m y = map (\<lambda>i. cell N m i y) [0..N - 1]"

definition sub_block :: "int \<Rightarrow> int \<Rightarrow> grid \<Rightarrow> int \<Rightarrow> int \<Rightarrow> int list" where
  "sub_block N s m x0 y0 =
     concat (map (\<lambda>i. map (\<lambda>j. cell N m i j) [y0..y0 + s - 1]) [x0..x0 + s - 1])"

definition block_start :: "int \<Rightarrow> int \<Rightarrow> int" where
  "block_start s c = (c div s) * s"

text \<open>The \<open>N\<close> lines of either kind and the \<open>N\<close> sub-blocks of a grid of dimension
  \<open>N = s * s\<close>.\<close>

definition all_lines :: "int \<Rightarrow> int \<Rightarrow> grid \<Rightarrow> int list list" where
  "all_lines N s m =
     map (row_line N m) [0..N - 1] @ map (col_line N m) [0..N - 1]
     @ concat (map (\<lambda>i. map (\<lambda>j. sub_block N s m (i * s) (j * s)) [0..s - 1]) [0..s - 1])"

text \<open>The uniqueness property of a solved grid: every line and every sub-block contains
  each value of \<open>1..N\<close> exactly once.\<close>

definition each_once :: "int \<Rightarrow> int list \<Rightarrow> bool" where
  "each_once N l \<longleftrightarrow> list_all (\<lambda>v. count_list l v = 1) [1..N]"

definition uniqueness :: "int \<Rightarrow> int \<Rightarrow> grid \<Rightarrow> bool" where
  "uniqueness N s m \<longleftrightarrow> list_all (each_once N) (all_lines N s m)"

text \<open>An input has a duplicate when two cells of one line or of one sub-block hold the
  same non-zero value.\<close>

definition no_duplicates :: "int \<Rightarrow> int \<Rightarrow> grid \<Rightarrow> bool" where
  "no_duplicates N s m \<longleftrightarrow>
     list_all (\<lambda>l. distinct (filter (\<lambda>v. v \<noteq> 0) l)) (all_lines N s m)"

text \<open>The preconditions of the specification's \<open>solve\<close>: the dimension is the square of a
  positive \<open>s\<close>, the grid has \<open>N * N\<close> cells (a number that fits an \<open>int\<close>), and the
  values are in \<open>[0, N]\<close>.\<close>

definition well_formed :: "int \<Rightarrow> int \<Rightarrow> grid \<Rightarrow> bool" where
  "well_formed N s m \<longleftrightarrow> 0 < s \<and> s * s = N \<and> N * N < 2 ^ 31 \<and> int (length m) = N * N"

definition values_in_range :: "int \<Rightarrow> grid \<Rightarrow> bool" where
  "values_in_range N m \<longleftrightarrow> list_all (\<lambda>v. 0 \<le> v \<and> v \<le> N) m"

definition fully_filled :: "grid \<Rightarrow> bool" where
  "fully_filled m \<longleftrightarrow> list_all (\<lambda>v. v \<noteq> 0) m"

text \<open>The grid \<open>g\<close> keeps every non-zero value of the grid \<open>m\<close> in its cell.\<close>

definition keeps_prefilled :: "grid \<Rightarrow> grid \<Rightarrow> bool" where
  "keeps_prefilled m g \<longleftrightarrow> list_all2 (\<lambda>a b. a \<noteq> 0 \<longrightarrow> b = a) m g"

text \<open>No cell of the line through \<open>x\<close>, of the line through \<open>y\<close> or of the sub-block of
  \<open>(x, y)\<close> holds \<open>v\<close>.\<close>

definition cell_free :: "int \<Rightarrow> int \<Rightarrow> grid \<Rightarrow> int \<Rightarrow> int \<Rightarrow> int \<Rightarrow> bool" where
  "cell_free N s m x y v \<longleftrightarrow>
     (\<forall>j\<in>{0..<N}. cell N m x j \<noteq> v) \<and> (\<forall>i\<in>{0..<N}. cell N m i y \<noteq> v)
     \<and> (\<forall>i\<in>{block_start s x..<block_start s x + s}.
          \<forall>j\<in>{block_start s y..<block_start s y + s}. cell N m i j \<noteq> v)"

section \<open>The sequential search as the specification words it\<close>

text \<open>
  Section 4.3 of the specification: advance (\<open>x \<ge> N\<close> resets \<open>x\<close> and increments \<open>y\<close>);
  terminal (\<open>y \<ge> N\<close> after the advance: the grid is the solution); skip (a non-zero
  cell: go to the next cell); branch (an empty cell: the candidates \<open>1..N\<close> in ascending
  order, each accepted one placed on a copy and searched; the first one whose subtree
  yields a solution is returned at once). The grid operations are the program's.
\<close>

definition spec_rank_y :: "int \<Rightarrow> int \<Rightarrow> int \<Rightarrow> nat" where
  "spec_rank_y N x y = (if advance_y N x y \<ge> N then 0 else nat (N - advance_y N x y) + 1)"

function spec_search :: "int \<Rightarrow> grid \<Rightarrow> int \<Rightarrow> int \<Rightarrow> error + grid option"
  and spec_branch :: "int \<Rightarrow> grid \<Rightarrow> int \<Rightarrow> int \<Rightarrow> int \<Rightarrow> error + grid option"
where
  "spec_search N m x y =
     (if advance_y N x y \<ge> N then Inr (Some m)
      else
        (case getElem N m (of_int (advance_x N x)) (of_int (advance_y N x y)) of
           Inl e \<Rightarrow> Inl e
         | Inr v \<Rightarrow>
             if v \<noteq> 0 then spec_search N m (advance_x N x + 1) (advance_y N x y)
             else spec_branch N m (advance_x N x) (advance_y N x y) 1))"
| "spec_branch N m x y v =
     (if v > N then Inr None
      else
        (case isCandidate N m x y v of
           Inl e \<Rightarrow> Inl e
         | Inr accepted \<Rightarrow>
             if accepted then
               (case setElem N m (of_int x) (of_int y) v of
                  Inl e \<Rightarrow> Inl e
                | Inr m' \<Rightarrow>
                    (case spec_search N m' (x + 1) y of
                       Inl e \<Rightarrow> Inl e
                     | Inr (Some g) \<Rightarrow> Inr (Some g)
                     | Inr None \<Rightarrow> spec_branch N m x y (v + 1)))
             else spec_branch N m x y (v + 1)))"
  by pat_completeness auto

termination
proof (relation "measures
    [\<lambda>a. case a of Inl (N, m, x, y) \<Rightarrow> spec_rank_y N x y
              | Inr (N, m, x, y, v) \<Rightarrow> nat (N - y) + 1,
     \<lambda>a. case a of Inl (N, m, x, y) \<Rightarrow> nat (N - advance_x N x)
              | Inr (N, m, x, y, v) \<Rightarrow> nat (N - x),
     \<lambda>a. case a of Inl _ \<Rightarrow> 1 | Inr _ \<Rightarrow> 0,
     \<lambda>a. case a of Inl _ \<Rightarrow> 0 | Inr (N, m, x, y, v) \<Rightarrow> nat (N + 1 - v)]")
qed (auto simp: spec_rank_y_def advance_x_def advance_y_def split: if_splits)

declare spec_search.simps [simp del] spec_branch.simps [simp del]

text \<open>The outcome of \<open>run\<close> that has a given result and leaves the grid as it was, and the
  specification's search from the first cell of a constructed grid.\<close>

definition outcome_of :: "grid \<Rightarrow> error + grid option \<Rightarrow> outcome" where
  "outcome_of sudoku res = (case res of Inl e \<Rightarrow> Inl e | Inr r \<Rightarrow> Inr (r, sudoku))"

definition spec_solve :: "int \<Rightarrow> int list \<Rightarrow> error + grid option" where
  "spec_solve N elements =
     (case SudokuMap N elements of
        Inl e \<Rightarrow> Inl e
      | Inr m \<Rightarrow> spec_search N m 0 0)"

section \<open>Invariants of the search\<close>

text \<open>The first \<open>k\<close> cells of the grid, in the order of the search, are filled.\<close>

definition prefix_filled :: "grid \<Rightarrow> nat \<Rightarrow> bool" where
  "prefix_filled m k \<longleftrightarrow> list_all (\<lambda>v. v \<noteq> 0) (take k m)"

text \<open>Some execution returns, none throws, and every returned grid is fully filled.\<close>

definition returns_filled :: "outcome list \<Rightarrow> bool" where
  "returns_filled outs \<longleftrightarrow>
     outs \<noteq> []
     \<and> list_all (\<lambda>out. case out of Inl _ \<Rightarrow> False
                        | Inr (None, _) \<Rightarrow> True
                        | Inr (Some g, _) \<Rightarrow> fully_filled g) outs"

text \<open>Two cells lie in one line or in one sub-block; no two such cells hold the same
  non-zero value.\<close>

definition same_unit :: "int \<Rightarrow> int \<Rightarrow> int \<Rightarrow> int \<Rightarrow> int \<Rightarrow> bool" where
  "same_unit s x1 y1 x2 y2 \<longleftrightarrow>
     x1 = x2 \<or> y1 = y2 \<or> (x1 div s = x2 div s \<and> y1 div s = y2 div s)"

definition conflict_free :: "int \<Rightarrow> int \<Rightarrow> grid \<Rightarrow> bool" where
  "conflict_free N s m \<longleftrightarrow>
     (\<forall>x1\<in>{0..<N}. \<forall>y1\<in>{0..<N}. \<forall>x2\<in>{0..<N}. \<forall>y2\<in>{0..<N}.
        (x1, y1) \<noteq> (x2, y2) \<and> same_unit s x1 y1 x2 y2 \<and> cell N m x1 y1 \<noteq> 0
        \<longrightarrow> cell N m x1 y1 \<noteq> cell N m x2 y2)"

text \<open>The coordinates of the cells of each line and of each sub-block, in the order of
  \<open>all_lines\<close>.\<close>

definition unit_cells :: "int \<Rightarrow> int \<Rightarrow> (int \<times> int) list list" where
  "unit_cells N s =
     map (\<lambda>x. map (Pair x) [0..N - 1]) [0..N - 1]
     @ map (\<lambda>y. map (\<lambda>i. (i, y)) [0..N - 1]) [0..N - 1]
     @ concat (map (\<lambda>i. map (\<lambda>j. List.product [i * s..i * s + s - 1] [j * s..j * s + s - 1])
                            [0..s - 1]) [0..s - 1])"

section \<open>Grid access within the bounds\<close>

lemma flat_bound:
  assumes "0 \<le> x" "x < N" "0 \<le> y" "y < (N::int)"
  shows "0 \<le> x + y * N" "x + y * N < N * N"
proof -
  show "0 \<le> x + y * N" using assms by simp
  have "x + y * N \<le> (N - 1) + (N - 1) * N"
    using assms by (intro add_mono mult_right_mono) auto
  then show "x + y * N < N * N" by (simp add: algebra_simps)
qed

lemma flat_index_in_range:
  assumes "0 \<le> x" "x < N" "0 \<le> y" "y < N" "N * N < 2 ^ 31"
  shows "flat_index N (of_int x) (of_int y) = nat (x + y * N)"
proof -
  note b = flat_bound [OF assms(1-4)]
  have "(of_int x + of_int y * of_int N :: 64 word) = of_int (x + y * N)" by simp
  then have "flat_index N (of_int x) (of_int y) = unat (of_int (x + y * N) :: 64 word)"
    by (simp add: flat_index_def)
  also have "\<dots> = nat ((x + y * N) mod 2 ^ 64)"
    by (simp only: unat_eq_nat_uint uint_word_of_int) simp
  also have "\<dots> = nat (x + y * N)"
    using b assms(5) by simp
  finally show ?thesis .
qed

lemma getElem_in_range:
  assumes "0 \<le> x" "x < N" "0 \<le> y" "y < N" "N * N < 2 ^ 31" "int (length m) = N * N"
  shows "getElem N m (of_int x) (of_int y) = Inr (cell N m x y)"
proof -
  have "nat (x + y * N) < length m"
    using flat_bound [OF assms(1-4)] assms(6) by linarith
  then show ?thesis
    by (simp add: getElem_def cell_def flat_index_in_range [OF assms(1-5)])
qed

lemma setElem_in_range:
  assumes "0 \<le> x" "x < N" "0 \<le> y" "y < N" "N * N < 2 ^ 31" "int (length m) = N * N"
  shows "setElem N m (of_int x) (of_int y) v = Inr (m[nat (x + y * N) := v])"
proof -
  have "nat (x + y * N) < length m"
    using flat_bound [OF assms(1-4)] assms(6) by linarith
  then show ?thesis
    by (simp add: setElem_def flat_index_in_range [OF assms(1-5)])
qed

lemma sqrt_from_square: "0 \<le> r \<Longrightarrow> r \<le> s \<Longrightarrow> sqrt_from (s * s) r = s"
proof (induction "nat (s - r)" arbitrary: r)
  case 0
  then have "r = s" by simp
  moreover have "\<not> (s + 1) * (s + 1) \<le> s * s"
    using 0 by (simp add: algebra_simps)
  ultimately show ?case by (simp add: sqrt_from.simps [of "s * s" s])
next
  case (Suc k)
  then have lt: "r + 1 \<le> s" by linarith
  then have "(r + 1) * (r + 1) \<le> s * s"
    using Suc.prems by (intro mult_mono) auto
  moreover have "sqrt_from (s * s) (r + 1) = s"
    using Suc lt by (intro Suc.hyps(1)) auto
  ultimately show ?case
    using Suc.prems by (simp add: sqrt_from.simps [of "s * s" r])
qed

lemma subgridSize_square: "0 \<le> s \<Longrightarrow> subgridSize (s * s) = s"
  by (simp add: subgridSize_def sqrt_from_square)

lemma c_div_nonneg: "0 \<le> a \<Longrightarrow> 0 < b \<Longrightarrow> c_div a b = a div b"
  by (cases "a = 0") (simp_all add: c_div_def)

lemma row_loop_eq:
  assumes "0 \<le> x" "x < N" "N * N < 2 ^ 31" "int (length m) = N * N"
  shows "0 \<le> col \<Longrightarrow> row_loop N m x v col = Inr (\<forall>j\<in>{col..<N}. cell N m x j \<noteq> v)"
proof (induction "nat (N - col)" arbitrary: col)
  case 0
  then show ?case by (simp add: row_loop.simps [of N m x v col])
next
  case (Suc k)
  then have lt: "col < N" by linarith
  have g: "getElem N m (of_int x) (of_int col) = Inr (cell N m x col)"
    using assms Suc.prems lt by (intro getElem_in_range) auto
  have ih: "row_loop N m x v (col + 1) = Inr (\<forall>j\<in>{col + 1..<N}. cell N m x j \<noteq> v)"
    using Suc by (intro Suc.hyps(1)) auto
  have split: "{col..<N} = insert col {col + 1..<N}" using lt by auto
  show ?case
    by (simp add: row_loop.simps [of N m x v col] lt g ih split)
qed

lemma col_loop_eq:
  assumes "0 \<le> y" "y < N" "N * N < 2 ^ 31" "int (length m) = N * N"
  shows "0 \<le> row \<Longrightarrow> col_loop N m y v row = Inr (\<forall>i\<in>{row..<N}. cell N m i y \<noteq> v)"
proof (induction "nat (N - row)" arbitrary: row)
  case 0
  then show ?case by (simp add: col_loop.simps [of N m y v row])
next
  case (Suc k)
  then have lt: "row < N" by linarith
  have g: "getElem N m (of_int row) (of_int y) = Inr (cell N m row y)"
    using assms Suc.prems lt by (intro getElem_in_range) auto
  have ih: "col_loop N m y v (row + 1) = Inr (\<forall>i\<in>{row + 1..<N}. cell N m i y \<noteq> v)"
    using Suc by (intro Suc.hyps(1)) auto
  have split: "{row..<N} = insert row {row + 1..<N}" using lt by auto
  show ?case
    by (simp add: col_loop.simps [of N m y v row] lt g ih split)
qed

lemma subgrid_inner_eq:
  assumes "0 \<le> row" "row < N" "colEnd \<le> N" "N * N < 2 ^ 31" "int (length m) = N * N"
  shows "0 \<le> col \<Longrightarrow>
    subgrid_inner N m v row colEnd col = Inr (\<forall>j\<in>{col..<colEnd}. cell N m row j \<noteq> v)"
proof (induction "nat (colEnd - col)" arbitrary: col)
  case 0
  then show ?case by (simp add: subgrid_inner.simps [of N m v row colEnd col])
next
  case (Suc k)
  then have lt: "col < colEnd" by linarith
  have g: "getElem N m (of_int row) (of_int col) = Inr (cell N m row col)"
    using assms Suc.prems lt by (intro getElem_in_range) auto
  have ih: "subgrid_inner N m v row colEnd (col + 1)
      = Inr (\<forall>j\<in>{col + 1..<colEnd}. cell N m row j \<noteq> v)"
    using Suc by (intro Suc.hyps(1)) auto
  have split: "{col..<colEnd} = insert col {col + 1..<colEnd}" using lt by auto
  show ?case
    by (simp add: subgrid_inner.simps [of N m v row colEnd col] lt g ih split)
qed

lemma subgrid_outer_eq:
  assumes "0 \<le> colStart" "colEnd \<le> N" "rowEnd \<le> N" "N * N < 2 ^ 31"
    "int (length m) = N * N"
  shows "0 \<le> row \<Longrightarrow>
    subgrid_outer N m v rowEnd colStart colEnd row
      = Inr (\<forall>i\<in>{row..<rowEnd}. \<forall>j\<in>{colStart..<colEnd}. cell N m i j \<noteq> v)"
proof (induction "nat (rowEnd - row)" arbitrary: row)
  case 0
  then show ?case by (simp add: subgrid_outer.simps [of N m v rowEnd colStart colEnd row])
next
  case (Suc k)
  then have lt: "row < rowEnd" by linarith
  have g: "subgrid_inner N m v row colEnd colStart
      = Inr (\<forall>j\<in>{colStart..<colEnd}. cell N m row j \<noteq> v)"
    using assms Suc.prems lt by (intro subgrid_inner_eq) auto
  have ih: "subgrid_outer N m v rowEnd colStart colEnd (row + 1)
      = Inr (\<forall>i\<in>{row + 1..<rowEnd}. \<forall>j\<in>{colStart..<colEnd}. cell N m i j \<noteq> v)"
    using Suc by (intro Suc.hyps(1)) auto
  have split: "{row..<rowEnd} = insert row {row + 1..<rowEnd}" using lt by auto
  show ?case
    by (simp add: subgrid_outer.simps [of N m v rowEnd colStart colEnd row] lt g ih split)
qed

text \<open>The sub-block of a cell lies within the grid.\<close>

lemma block_start_bounds:
  assumes "0 < s" "0 \<le> c" "c < s * s"
  shows "0 \<le> block_start s c" "block_start s c \<le> c" "c < block_start s c + s"
    "block_start s c + s \<le> s * s"
proof -
  have q: "0 \<le> c div s" using assms by (simp add: pos_imp_zdiv_nonneg_iff)
  have e: "c = block_start s c + c mod s" by (simp add: block_start_def)
  have m: "0 \<le> c mod s" "c mod s < s" using assms by simp_all
  show "0 \<le> block_start s c" using q assms by (simp add: block_start_def)
  show "block_start s c \<le> c" using e m by linarith
  show "c < block_start s c + s" using e m by linarith
  have "(c div s) * s < s * s"
    using e m assms unfolding block_start_def by linarith
  then have q2: "c div s < s"
    using assms by (simp add: mult_less_cancel_right_pos)
  have "(c div s + 1) * s \<le> s * s"
    using q2 assms by (intro mult_right_mono) auto
  then show "block_start s c + s \<le> s * s"
    by (simp add: block_start_def algebra_simps)
qed

lemma isCandidate_eq:
  assumes "well_formed N s m" "0 \<le> x" "x < N" "0 \<le> y" "y < N"
  shows "isCandidate N m x y v = Inr (cell_free N s m x y v)"
proof -
  from assms(1) have s: "0 < s" and N: "N = s * s" and b: "N * N < 2 ^ 31"
    and l: "int (length m) = N * N"
    unfolding well_formed_def by auto
  have sg: "subgridSize N = s" using s N by (simp add: subgridSize_square)
  have dx: "c_div x s * s = block_start s x" and dy: "c_div y s * s = block_start s y"
    using s assms by (simp_all add: c_div_nonneg block_start_def)
  note bx = block_start_bounds [OF s assms(2) assms(3) [unfolded N]]
  note by' = block_start_bounds [OF s assms(4) assms(5) [unfolded N]]
  have r: "row_loop N m x v 0 = Inr (\<forall>j\<in>{0..<N}. cell N m x j \<noteq> v)"
    using assms b l by (intro row_loop_eq) auto
  have c: "col_loop N m y v 0 = Inr (\<forall>i\<in>{0..<N}. cell N m i y \<noteq> v)"
    using assms b l by (intro col_loop_eq) auto
  have o: "subgrid_outer N m v (block_start s x + s) (block_start s y)
      (block_start s y + s) (block_start s x)
    = Inr (\<forall>i\<in>{block_start s x..<block_start s x + s}.
          \<forall>j\<in>{block_start s y..<block_start s y + s}. cell N m i j \<noteq> v)"
    using bx by' b l N by (intro subgrid_outer_eq) auto
  show ?thesis
    using s by (auto simp add: isCandidate_def r c sg dx dy o cell_free_def Let_def)
qed

section \<open>Construction and access\<close>

text \<open>
  Claim C7. For a dimension \<open>N\<close> whose square fits an \<open>int\<close> (beyond that the product of
  line 80 overflows), constructing a grid from a sequence whose length is not \<open>N * N\<close>
  fails with the dimension mismatch, and \<open>solve\<close> then fails with it before any search
  step; a sequence of length \<open>N * N\<close> is accepted whatever its values are.
\<close>

theorem construction_checks_length_only:
  assumes "N * N < 2 ^ 31"
  shows "(int (length elements) \<noteq> N * N \<longrightarrow>
      SudokuMap N elements = Inl DimensionMismatch
      \<and> solve N elements maxd = [Inl DimensionMismatch])
   \<and> (int (length elements) = N * N \<longrightarrow> SudokuMap N elements = Inr elements)"
  by (simp add: SudokuMap_def solve_def)

theorem construction_checks_length_only_witness:
  "(9 :: int) * 9 < 2 ^ 31
   \<and> SudokuMap 9 (replicate 80 0) = Inl DimensionMismatch
   \<and> solve 9 (replicate 80 0) 8 = [Inl DimensionMismatch]
   \<and> SudokuMap 2 [1, 1, 0, 1] = Inr [1, 1, 0, 1]"
proof -
  have b9: "(9 :: int) * 9 < 2 ^ 31" and b2: "(2 :: int) * 2 < 2 ^ 31" by simp_all
  from b9 construction_checks_length_only [OF b9, of "replicate 80 0" 8]
    construction_checks_length_only [OF b2, of "[1, 1, 0, 1]" 8]
  show ?thesis by simp
qed

text \<open>
  Claim C4, as stated, fails: \<open>getElem\<close> and \<open>setElem\<close> check the flat index only. In a
  grid of dimension 4 the access at \<open>x = 4\<close>, \<open>y = 0\<close> has a coordinate out of bounds and
  does not fail: it reads and writes the cell \<open>(0, 1)\<close>.
\<close>

theorem access_out_of_bounds_counterexample:
  "getElem 4 [1, 2, 3, 4, 3, 4, 1, 2, 2, 1, 4, 3, 4, 3, 2, 1] 4 0 = Inr 3
   \<and> setElem 4 [1, 2, 3, 4, 3, 4, 1, 2, 2, 1, 4, 3, 4, 3, 2, 1] 4 0 9
       = Inr [1, 2, 3, 4, 9, 4, 1, 2, 2, 1, 4, 3, 4, 3, 2, 1]"
  by (simp add: getElem_def setElem_def flat_index_def)

text \<open>
  Claim C4, amended. \<open>getElem\<close> and \<open>setElem\<close> fail with the out-of-range error exactly
  when the flat index \<open>x + y * N\<close>, computed in \<open>size_t\<close>, is not below the number of
  stored elements; otherwise they read, or write, the element at the flat index.
\<close>

theorem access_checks_flat_index:
  "(getElem N m x y = Inl OutOfRange \<longleftrightarrow> length m \<le> unat (x + y * of_int N))
   \<and> (setElem N m x y v = Inl OutOfRange \<longleftrightarrow> length m \<le> unat (x + y * of_int N))
   \<and> (unat (x + y * of_int N) < length m \<longrightarrow>
        getElem N m x y = Inr (m ! unat (x + y * of_int N))
        \<and> setElem N m x y v = Inr (m[unat (x + y * of_int N) := v]))"
  by (auto simp add: getElem_def setElem_def flat_index_def)

theorem access_checks_flat_index_witness:
  "unat (3 + 2 * of_int 4 :: size_t) < length [1, 2, 3, 4, 3, 4, 1, 2, 2, 1, 4, 3, 4, 3, 2, 1 :: int]
   \<and> getElem 4 [1, 2, 3, 4, 3, 4, 1, 2, 2, 1, 4, 3, 4, 3, 2, 1] 3 2 = Inr 3
   \<and> getElem 4 [1, 2, 3, 4, 3, 4, 1, 2, 2, 1, 4, 3, 4, 3, 2, 1] 0 4 = Inl OutOfRange"
  using access_checks_flat_index [of 4 "[1, 2, 3, 4, 3, 4, 1, 2, 2, 1, 4, 3, 4, 3, 2, 1]" 3 2 0]
    access_checks_flat_index [of 4 "[1, 2, 3, 4, 3, 4, 1, 2, 2, 1, 4, 3, 4, 3, 2, 1]" 0 4 0]
  by simp

section \<open>The candidate check\<close>

lemma set_row_line: "set (row_line N m x) = (\<lambda>j. cell N m x j) ` {0..<N}"
  by (auto simp add: row_line_def)

lemma set_col_line: "set (col_line N m y) = (\<lambda>i. cell N m i y) ` {0..<N}"
  by (auto simp add: col_line_def)

lemma set_sub_block:
  "set (sub_block N s m x0 y0) = (\<lambda>(i, j). cell N m i j) ` ({x0..<x0 + s} \<times> {y0..<y0 + s})"
  by (auto simp add: sub_block_def)

lemma cell_free_lines:
  "cell_free N s m x y v \<longleftrightarrow>
     v \<notin> set (row_line N m x) \<and> v \<notin> set (col_line N m y)
     \<and> v \<notin> set (sub_block N s m (block_start s x) (block_start s y))"
  unfolding cell_free_def set_row_line set_col_line set_sub_block by fastforce

text \<open>
  Claim C3. For a cell \<open>(x, y)\<close> of a grid of dimension \<open>N = s * s\<close> and every value \<open>v\<close>,
  \<open>isCandidate\<close> returns false exactly when \<open>v\<close> occurs in the line of the cells sharing
  \<open>x\<close>, in the line of the cells sharing \<open>y\<close>, or in the sub-block that starts at
  \<open>(coord div s) * s\<close> along each axis, and true otherwise. It throws nothing, and its
  only result is the truth value: the grid is not changed.
\<close>

theorem isCandidate_checks_lines_and_block:
  assumes "well_formed N s m" "0 \<le> x" "x < N" "0 \<le> y" "y < N"
  shows "isCandidate N m x y v =
    Inr (v \<notin> set (row_line N m x) \<and> v \<notin> set (col_line N m y)
         \<and> v \<notin> set (sub_block N s m (block_start s x) (block_start s y)))"
  using isCandidate_eq [OF assms] by (simp add: cell_free_lines)

theorem isCandidate_checks_lines_and_block_witness:
  "isCandidate 4 [1, 2, 0, 4, 3, 4, 1, 2, 0, 1, 4, 3, 4, 3, 2, 0] 2 0 3 =
    Inr (3 \<notin> set (row_line 4 [1, 2, 0, 4, 3, 4, 1, 2, 0, 1, 4, 3, 4, 3, 2, 0] 2)
         \<and> 3 \<notin> set (col_line 4 [1, 2, 0, 4, 3, 4, 1, 2, 0, 1, 4, 3, 4, 3, 2, 0] 0)
         \<and> 3 \<notin> set (sub_block 4 2 [1, 2, 0, 4, 3, 4, 1, 2, 0, 1, 4, 3, 4, 3, 2, 0]
                      (block_start 2 2) (block_start 2 0)))"
  by (rule isCandidate_checks_lines_and_block) (simp_all add: well_formed_def)

section \<open>The outcomes of the join and of the sequential loop\<close>

lemma task_errors_mem: "e \<in> set (task_errors t) \<longleftrightarrow> Inl e \<in> set t"
  by (auto simp add: task_errors_def split: sum.splits)

lemma task_solutions_mem: "g \<in> set (task_solutions t) \<longleftrightarrow> (\<exists>s. Inr (Some g, s) \<in> set t)"
  by (force simp add: task_solutions_def split: sum.splits option.splits prod.splits)

lemma can_finish_iff: "can_finish t \<longleftrightarrow> (\<exists>r. Inr r \<in> set t)"
proof
  assume "can_finish t"
  then obtain out where o: "out \<in> set t" and c: "case out of Inl _ \<Rightarrow> False | Inr _ \<Rightarrow> True"
    by (auto simp add: can_finish_def list_ex_iff)
  from c obtain r where "out = Inr r" by (cases out) simp_all
  with o show "\<exists>r. Inr r \<in> set t" by blast
next
  assume "\<exists>r. Inr r \<in> set t"
  then show "can_finish t" by (force simp add: can_finish_def list_ex_iff)
qed

lemma can_return_null_iff: "can_return_null t \<longleftrightarrow> (\<exists>s. Inr (None, s) \<in> set t)"
proof
  assume "can_return_null t"
  then obtain out where o: "out \<in> set t"
    and c: "case out of Inr (None, _) \<Rightarrow> True | _ \<Rightarrow> False"
    by (auto simp add: can_return_null_def list_ex_iff)
  from c obtain s where "out = Inr (None, s)"
    by (cases out) (simp_all split: prod.splits option.splits)
  with o show "\<exists>s. Inr (None, s) \<in> set t" by blast
next
  assume "\<exists>s. Inr (None, s) \<in> set t"
  then show "can_return_null t" by (force simp add: can_return_null_def list_ex_iff)
qed

lemma omp_join_Inl:
  "Inl e \<in> set (omp_join tasks m) \<longleftrightarrow> (\<exists>t\<in>set tasks. Inl e \<in> set t)"
  by (auto simp add: omp_join_def task_errors_mem image_iff)

lemma omp_join_Some:
  "Inr (Some g, s) \<in> set (omp_join tasks m) \<longleftrightarrow>
     s = m \<and> (\<forall>t\<in>set tasks. can_finish t) \<and> (\<exists>t\<in>set tasks. \<exists>s'. Inr (Some g, s') \<in> set t)"
  by (auto simp add: omp_join_def task_solutions_mem image_iff list_all_iff)

lemma omp_join_None:
  "Inr (None, s) \<in> set (omp_join tasks m) \<longleftrightarrow>
     s = m \<and> (\<forall>t\<in>set tasks. can_return_null t)"
  by (auto simp add: omp_join_def image_iff list_all_iff)

lemma seq_step_Inl:
  "Inl e \<in> set (case sub of Inl e \<Rightarrow> [Inl e]
          | Inr (subSolution, _) \<Rightarrow>
              if subSolution \<noteq> None then [Inr (subSolution, m)] else rest)
      \<longleftrightarrow> sub = Inl e \<or> (Inl e \<in> set rest \<and> (\<exists>s. sub = Inr (None, s)))"
proof (cases sub)
  case (Inl a)
  then show ?thesis by auto
next
  case (Inr b)
  then show ?thesis by (cases b) simp
qed

lemma seq_step_Inr:
  "Inr (r, s) \<in> set (case sub of Inl e \<Rightarrow> [Inl e]
          | Inr (subSolution, _) \<Rightarrow>
              if subSolution \<noteq> None then [Inr (subSolution, m)] else rest)
      \<longleftrightarrow> (\<exists>g s'. r = Some g \<and> s = m \<and> sub = Inr (Some g, s'))
          \<or> (Inr (r, s) \<in> set rest \<and> (\<exists>s'. sub = Inr (None, s')))"
proof (cases sub)
  case (Inl a)
  then show ?thesis by simp
next
  case (Inr b)
  then show ?thesis by (cases b) auto
qed

lemma seq_continue_Inl:
  "Inl e \<in> set (seq_continue subs m rest) \<longleftrightarrow>
     Inl e \<in> set subs \<or> (Inl e \<in> set rest \<and> (\<exists>s. Inr (None, s) \<in> set subs))"
  by (simp add: seq_continue_def seq_step_Inl del: not_None_eq) blast

lemma seq_continue_Inr:
  "Inr (r, s) \<in> set (seq_continue subs m rest) \<longleftrightarrow>
     (\<exists>g s'. r = Some g \<and> s = m \<and> Inr (Some g, s') \<in> set subs)
     \<or> (Inr (r, s) \<in> set rest \<and> (\<exists>s'. Inr (None, s') \<in> set subs))"
  by (simp add: seq_continue_def seq_step_Inr del: not_None_eq) blast

section \<open>The branches of \<open>run\<close> and of its loops\<close>

lemma run_terminal:
  "x \<ge> N \<Longrightarrow> y + 1 \<ge> N \<Longrightarrow> run N maxd m x y depth = [Inr (Some m, m)]"
  by (auto simp add: run.simps [of N maxd m x y depth])

lemma run_error:
  "\<not> (x \<ge> N \<and> y + 1 \<ge> N) \<Longrightarrow>
   getElem N m (of_int (advance_x N x)) (of_int (advance_y N x y)) = Inl e \<Longrightarrow>
   run N maxd m x y depth = [Inl e]"
  by (auto simp add: run.simps [of N maxd m x y depth])

lemma run_skip:
  "\<not> (x \<ge> N \<and> y + 1 \<ge> N) \<Longrightarrow>
   getElem N m (of_int (advance_x N x)) (of_int (advance_y N x y)) = Inr v \<Longrightarrow> v \<noteq> 0 \<Longrightarrow>
   run N maxd m x y depth = run N maxd m (advance_x N x + 1) (advance_y N x y) depth"
  by (auto simp add: run.simps [of N maxd m x y depth])

lemma run_par:
  "\<not> (x \<ge> N \<and> y + 1 \<ge> N) \<Longrightarrow>
   getElem N m (of_int (advance_x N x)) (of_int (advance_y N x y)) = Inr 0 \<Longrightarrow>
   takes_parallel_branch maxd depth \<Longrightarrow>
   run N maxd m x y depth =
     (case par_loop N maxd m (advance_x N x) (advance_y N x y) depth 1 of
        Inl e \<Rightarrow> [Inl e] | Inr tasks \<Rightarrow> omp_join tasks m)"
  by (auto simp add: run.simps [of N maxd m x y depth])

lemma run_seq:
  "\<not> (x \<ge> N \<and> y + 1 \<ge> N) \<Longrightarrow>
   getElem N m (of_int (advance_x N x)) (of_int (advance_y N x y)) = Inr 0 \<Longrightarrow>
   \<not> takes_parallel_branch maxd depth \<Longrightarrow>
   run N maxd m x y depth = seq_loop N maxd m (advance_x N x) (advance_y N x y) depth 1"
  by (auto simp add: run.simps [of N maxd m x y depth])

lemma seq_loop_done: "\<not> i \<le> N \<Longrightarrow> seq_loop N maxd m x y depth i = [Inr (None, m)]"
  by (simp add: seq_loop.simps [of N maxd m x y depth i])

lemma seq_loop_error:
  "i \<le> N \<Longrightarrow> isCandidate N m x y i = Inl e \<Longrightarrow> seq_loop N maxd m x y depth i = [Inl e]"
  by (simp add: seq_loop.simps [of N maxd m x y depth i])

lemma seq_loop_reject:
  "i \<le> N \<Longrightarrow> isCandidate N m x y i = Inr False \<Longrightarrow>
   seq_loop N maxd m x y depth i = seq_loop N maxd m x y depth (i + 1)"
  by (simp add: seq_loop.simps [of N maxd m x y depth i])

lemma seq_loop_set_error:
  "i \<le> N \<Longrightarrow> isCandidate N m x y i = Inr True \<Longrightarrow>
   setElem N m (of_int x) (of_int y) i = Inl e \<Longrightarrow>
   seq_loop N maxd m x y depth i = [Inl e]"
  by (simp add: seq_loop.simps [of N maxd m x y depth i])

lemma seq_loop_accept:
  "i \<le> N \<Longrightarrow> isCandidate N m x y i = Inr True \<Longrightarrow>
   setElem N m (of_int x) (of_int y) i = Inr m' \<Longrightarrow>
   seq_loop N maxd m x y depth i =
     seq_continue (run N maxd m' (x + 1) y (depth + 1)) m (seq_loop N maxd m x y depth (i + 1))"
  by (simp add: seq_loop.simps [of N maxd m x y depth i])

lemma par_loop_done: "\<not> i \<le> N \<Longrightarrow> par_loop N maxd m x y depth i = Inr []"
  by (simp add: par_loop.simps [of N maxd m x y depth i])

lemma par_loop_error:
  "i \<le> N \<Longrightarrow> isCandidate N m x y i = Inl e \<Longrightarrow> par_loop N maxd m x y depth i = Inl e"
  by (simp add: par_loop.simps [of N maxd m x y depth i])

lemma par_loop_rest_error:
  "i \<le> N \<Longrightarrow> isCandidate N m x y i = Inr c \<Longrightarrow>
   par_loop N maxd m x y depth (i + 1) = Inl e \<Longrightarrow> par_loop N maxd m x y depth i = Inl e"
  by (simp add: par_loop.simps [of N maxd m x y depth i])

lemma par_loop_reject:
  "i \<le> N \<Longrightarrow> isCandidate N m x y i = Inr False \<Longrightarrow>
   par_loop N maxd m x y depth i = par_loop N maxd m x y depth (i + 1)"
  by (simp add: par_loop.simps [of N maxd m x y depth i] split: sum.splits)

lemma par_loop_accept:
  "i \<le> N \<Longrightarrow> isCandidate N m x y i = Inr True \<Longrightarrow>
   par_loop N maxd m x y depth (i + 1) = Inr tasks \<Longrightarrow>
   par_loop N maxd m x y depth i =
     Inr ((case setElem N m (of_int x) (of_int y) i of
             Inl e \<Rightarrow> [Inl e]
           | Inr taskSudoku \<Rightarrow> run N maxd taskSudoku (x + 1) y (depth + 1)) # tasks)"
  by (simp add: par_loop.simps [of N maxd m x y depth i])

section \<open>What the search does to the grid\<close>

lemma keeps_prefilled_refl: "keeps_prefilled m m"
  by (simp add: keeps_prefilled_def list_all2_conv_all_nth)

lemma keeps_prefilled_trans:
  "keeps_prefilled m m' \<Longrightarrow> keeps_prefilled m' g \<Longrightarrow> keeps_prefilled m g"
  by (auto simp add: keeps_prefilled_def list_all2_conv_all_nth)

lemma keeps_prefilled_set:
  assumes "getElem N m X Y = Inr 0" "setElem N m X Y i = Inr m'"
  shows "keeps_prefilled m m'"
proof -
  from assms(1) have k: "flat_index N X Y < length m" "m ! flat_index N X Y = 0"
    by (auto simp add: getElem_def split: if_splits)
  with assms(2) have "m' = m[flat_index N X Y := i]"
    by (simp add: setElem_def)
  with k show ?thesis
    by (auto simp add: keeps_prefilled_def list_all2_conv_all_nth nth_list_update)
qed

lemma run_keeps:
  shows "\<forall>g s. Inr (Some g, s) \<in> set (run N maxd m x y depth) \<longrightarrow> keeps_prefilled m g"
    and "getElem N m (of_int x) (of_int y) = Inr 0 \<longrightarrow>
      (\<forall>g s. Inr (Some g, s) \<in> set (seq_loop N maxd m x y depth i) \<longrightarrow> keeps_prefilled m g)"
    and "getElem N m (of_int x) (of_int y) = Inr 0 \<longrightarrow>
      (\<forall>tasks. par_loop N maxd m x y depth i = Inr tasks \<longrightarrow>
        (\<forall>t\<in>set tasks. \<forall>g s. Inr (Some g, s) \<in> set t \<longrightarrow> keeps_prefilled m g))"
proof (induct N maxd m x y depth and N maxd m x y depth i and N maxd m x y depth i
    rule: run_seq_loop_par_loop.induct)
  case (1 N maxd m x y depth)
  let ?g = "getElem N m (of_int (advance_x N x)) (of_int (advance_y N x y))"
  consider (terminal) "x \<ge> N \<and> y + 1 \<ge> N"
    | (error) e where "\<not> (x \<ge> N \<and> y + 1 \<ge> N)" "?g = Inl e"
    | (skip) v where "\<not> (x \<ge> N \<and> y + 1 \<ge> N)" "?g = Inr v" "v \<noteq> 0"
    | (par) "\<not> (x \<ge> N \<and> y + 1 \<ge> N)" "?g = Inr 0" "takes_parallel_branch maxd depth"
    | (seq) "\<not> (x \<ge> N \<and> y + 1 \<ge> N)" "?g = Inr 0" "\<not> takes_parallel_branch maxd depth"
    by (cases ?g) auto
  then show ?case
  proof cases
    case terminal
    then show ?thesis by (simp add: run_terminal keeps_prefilled_refl)
  next
    case error
    then show ?thesis by (simp add: run_error)
  next
    case skip
    then show ?thesis using 1(1) by (simp add: run_skip)
  next
    case par
    then show ?thesis using 1(2) [OF par(1,2)]
      by (auto simp add: run_par omp_join_Some split: sum.splits)
  next
    case seq
    then show ?thesis using 1(3) [OF seq(1,2)] by (simp add: run_seq)
  qed
next
  case (2 N maxd m x y depth i)
  show ?case
  proof (intro impI)
    assume z: "getElem N m (of_int x) (of_int y) = Inr 0"
    consider (finished) "\<not> i \<le> N"
      | (error) e where "i \<le> N" "isCandidate N m x y i = Inl e"
      | (reject) "i \<le> N" "isCandidate N m x y i = Inr False"
      | (set_error) e where "i \<le> N" "isCandidate N m x y i = Inr True"
          "setElem N m (of_int x) (of_int y) i = Inl e"
      | (accept) m' where "i \<le> N" "isCandidate N m x y i = Inr True"
          "setElem N m (of_int x) (of_int y) i = Inr m'"
      by (cases "isCandidate N m x y i"; cases "setElem N m (of_int x) (of_int y) i") auto
    then show "\<forall>g s. Inr (Some g, s) \<in> set (seq_loop N maxd m x y depth i) \<longrightarrow>
        keeps_prefilled m g"
    proof cases
      case finished
      then show ?thesis by (simp add: seq_loop_done)
    next
      case error
      then show ?thesis by (simp add: seq_loop_error)
    next
      case reject
      then show ?thesis using 2(3) [OF reject] z by (simp add: seq_loop_reject)
    next
      case set_error
      then show ?thesis by (simp add: seq_loop_set_error)
    next
      case accept
      have k: "keeps_prefilled m m'" using z accept(3) by (rule keeps_prefilled_set)
      show ?thesis
        using 2(1) [OF accept(1,2) _ accept(3)] 2(2) [OF accept(1,2) _ accept(3)] z k
        by (auto simp add: seq_loop_accept [OF accept] seq_continue_Inr
            intro: keeps_prefilled_trans)
    qed
  qed
next
  case (3 N maxd m x y depth i)
  show ?case
  proof (intro impI allI)
    fix tasks
    assume z: "getElem N m (of_int x) (of_int y) = Inr 0"
      and p: "par_loop N maxd m x y depth i = Inr tasks"
    show "\<forall>t\<in>set tasks. \<forall>g s. Inr (Some g, s) \<in> set t \<longrightarrow> keeps_prefilled m g"
    proof (cases "i \<le> N")
      case False
      with p show ?thesis by (simp add: par_loop_done)
    next
      case le: True
      show ?thesis
      proof (cases "isCandidate N m x y i")
        case (Inl e)
        with p le show ?thesis by (simp add: par_loop_error)
      next
        case c: (Inr candidate)
        show ?thesis
        proof (cases "par_loop N maxd m x y depth (i + 1)")
          case (Inl e)
          with p le c show ?thesis by (simp add: par_loop_rest_error)
        next
          case r: (Inr rest)
          have ih: "keeps_prefilled m g" if "t \<in> set rest" "Inr (Some g, s) \<in> set t" for t g s
            using 3(1) [OF le c] z r that by blast
          show ?thesis
          proof (cases candidate)
            case False
            with p le c r have "tasks = rest" by (simp add: par_loop_reject)
            with ih show ?thesis by blast
          next
            case True
            show ?thesis
            proof (cases "setElem N m (of_int x) (of_int y) i")
              case (Inl e)
              with p le c r True have "tasks = [Inl e] # rest"
                by (simp add: par_loop_accept)
              with ih show ?thesis by auto
            next
              case s: (Inr m')
              have k: "keeps_prefilled m m'" using z s by (rule keeps_prefilled_set)
              have new: "keeps_prefilled m g"
                if "Inr (Some g, s) \<in> set (run N maxd m' (x + 1) y (depth + 1))" for g s
                using 3(2) [OF le c r _ s] True that k keeps_prefilled_trans by blast
              from p le c r True s
              have "tasks = run N maxd m' (x + 1) y (depth + 1) # rest"
                by (simp add: par_loop_accept)
              with ih new show ?thesis by auto
            qed
          qed
        qed
      qed
    qed
  qed
qed


lemma run_frame:
  shows "\<forall>r m'. Inr (r, m') \<in> set (run N maxd m x y depth) \<longrightarrow> m' = m"
    and "\<forall>r m'. Inr (r, m') \<in> set (seq_loop N maxd m x y depth i) \<longrightarrow> m' = m"
    and "par_loop N maxd m x y depth i = par_loop N maxd m x y depth i"
proof (induct N maxd m x y depth and N maxd m x y depth i and N maxd m x y depth i
    rule: run_seq_loop_par_loop.induct)
  case (1 N maxd m x y depth)
  let ?g = "getElem N m (of_int (advance_x N x)) (of_int (advance_y N x y))"
  consider (terminal) "x \<ge> N \<and> y + 1 \<ge> N"
    | (error) e where "\<not> (x \<ge> N \<and> y + 1 \<ge> N)" "?g = Inl e"
    | (skip) v where "\<not> (x \<ge> N \<and> y + 1 \<ge> N)" "?g = Inr v" "v \<noteq> 0"
    | (par) "\<not> (x \<ge> N \<and> y + 1 \<ge> N)" "?g = Inr 0" "takes_parallel_branch maxd depth"
    | (seq) "\<not> (x \<ge> N \<and> y + 1 \<ge> N)" "?g = Inr 0" "\<not> takes_parallel_branch maxd depth"
    by (cases ?g) auto
  then show ?case
  proof cases
    case terminal
    then show ?thesis by (simp add: run_terminal)
  next
    case error
    then show ?thesis by (simp add: run_error)
  next
    case skip
    then show ?thesis using 1(1) by (simp add: run_skip)
  next
    case par
    have "m' = m" if "Inr (r, m') \<in> set (omp_join tasks m)" for r m' tasks
      using that by (cases r) (simp_all add: omp_join_Some omp_join_None)
    then show ?thesis
      by (auto simp add: run_par [OF par] split: sum.splits)
  next
    case seq
    then show ?thesis using 1(3) [OF seq(1,2)] by (simp add: run_seq)
  qed
next
  case (2 N maxd m x y depth i)
  consider (finished) "\<not> i \<le> N"
    | (error) e where "i \<le> N" "isCandidate N m x y i = Inl e"
    | (reject) "i \<le> N" "isCandidate N m x y i = Inr False"
    | (set_error) e where "i \<le> N" "isCandidate N m x y i = Inr True"
        "setElem N m (of_int x) (of_int y) i = Inl e"
    | (accept) m' where "i \<le> N" "isCandidate N m x y i = Inr True"
        "setElem N m (of_int x) (of_int y) i = Inr m'"
    by (cases "isCandidate N m x y i"; cases "setElem N m (of_int x) (of_int y) i") auto
  then show ?case
  proof cases
    case finished
    then show ?thesis by (simp add: seq_loop_done)
  next
    case error
    then show ?thesis by (simp add: seq_loop_error)
  next
    case reject
    then show ?thesis using 2(3) [OF reject] by (simp add: seq_loop_reject)
  next
    case set_error
    then show ?thesis by (simp add: seq_loop_set_error)
  next
    case accept
    show ?thesis
      using 2(2) [OF accept(1,2) _ accept(3)]
      by (auto simp add: seq_loop_accept [OF accept] seq_continue_Inr)
  qed
next
  case (3 N maxd m x y depth i)
  show ?case by simp
qed

lemma fully_filled_cell:
  assumes "fully_filled m" "int (length m) = N * N" "0 \<le> x" "x < N" "0 \<le> y" "y < N"
  shows "cell N m x y \<noteq> 0"
proof -
  have "nat (x + y * N) < length m"
    using flat_bound [OF assms(3-6)] assms(2) by linarith
  with assms(1) show ?thesis
    by (simp add: fully_filled_def cell_def list_all_length)
qed

lemma run_fully_filled:
  shows "N * N < 2 ^ 31 \<and> int (length m) = N * N \<and> fully_filled m \<and> 0 \<le> x \<and> 0 \<le> y
      \<and> (y < N \<or> N \<le> x)
    \<longrightarrow> run N maxd m x y depth = [Inr (Some m, m)]"
    and "seq_loop N maxd m x y depth i = seq_loop N maxd m x y depth i"
    and "par_loop N maxd m x y depth i = par_loop N maxd m x y depth i"
proof (induct N maxd m x y depth and N maxd m x y depth i and N maxd m x y depth i
    rule: run_seq_loop_par_loop.induct)
  case (1 N maxd m x y depth)
  show ?case
  proof (intro impI, elim conjE)
    assume b: "N * N < 2 ^ 31" and l: "int (length m) = N * N" and f: "fully_filled m"
      and x: "0 \<le> x" and y: "0 \<le> y" and p: "y < N \<or> N \<le> x"
    show "run N maxd m x y depth = [Inr (Some m, m)]"
    proof (cases "x \<ge> N \<and> y + 1 \<ge> N")
      case True
      then show ?thesis by (simp add: run_terminal)
    next
      case False
      have r: "0 \<le> advance_x N x" "advance_x N x < N" "0 \<le> advance_y N x y"
        "advance_y N x y < N"
        using False x y p by (auto simp add: advance_x_def advance_y_def)
      have g: "getElem N m (of_int (advance_x N x)) (of_int (advance_y N x y))
          = Inr (cell N m (advance_x N x) (advance_y N x y))"
        using r b l by (intro getElem_in_range) auto
      have nz: "cell N m (advance_x N x) (advance_y N x y) \<noteq> 0"
        using f l r by (rule fully_filled_cell)
      have "run N maxd m (advance_x N x + 1) (advance_y N x y) depth = [Inr (Some m, m)]"
        using 1(1) [OF False g nz] b l f r by simp
      then show ?thesis by (simp add: run_skip [OF False g nz])
    qed
  qed
qed simp_all

section \<open>Claims about the grid that the search returns\<close>

text \<open>
  Claim C6. A grid that is fully filled and satisfies the uniqueness property is returned
  by \<open>solve\<close> as it is: the only outcome is that grid, whatever the depth limit.
\<close>

theorem solve_fully_filled_unchanged:
  assumes "well_formed N s m" "fully_filled m" "uniqueness N s m"
  shows "solve N m maxd = [Inr (Some m, m)]"
proof -
  from assms(1) have b: "N * N < 2 ^ 31" and l: "int (length m) = N * N" and n: "0 < N"
    by (auto simp add: well_formed_def)
  have "run N maxd m 0 0 1 = [Inr (Some m, m)]"
    using run_fully_filled(1) [of N m 0 0 maxd 1] b l n assms(2) by simp
  with l show ?thesis by (simp add: solve_def SudokuMap_def)
qed

theorem solve_fully_filled_unchanged_witness:
  "solve 4 [1, 2, 3, 4, 3, 4, 1, 2, 2, 1, 4, 3, 4, 3, 2, 1] 8
     = [Inr (Some [1, 2, 3, 4, 3, 4, 1, 2, 2, 1, 4, 3, 4, 3, 2, 1],
             [1, 2, 3, 4, 3, 4, 1, 2, 2, 1, 4, 3, 4, 3, 2, 1])]"
proof -
  have w: "well_formed 4 2 [1, 2, 3, 4, 3, 4, 1, 2, 2, 1, 4, 3, 4, 3, 2, 1]"
    by (simp add: well_formed_def)
  have f: "fully_filled [1, 2, 3, 4, 3, 4, 1, 2, 2, 1, 4, 3, 4, 3, 2, 1]"
    by (simp add: fully_filled_def)
  have u: "uniqueness 4 2 [1, 2, 3, 4, 3, 4, 1, 2, 2, 1, 4, 3, 4, 3, 2, 1]"
    by code_simp
  show ?thesis by (rule solve_fully_filled_unchanged [OF w f u])
qed

text \<open>
  Claim C9. Every grid that the search returns holds, in each cell that is non-zero in the
  input, the value of the input: only cells that were zero are assigned.
\<close>

theorem solve_keeps_prefilled:
  assumes "Inr (Some g, m') \<in> set (solve N elements maxd)"
  shows "keeps_prefilled elements g"
proof (cases "SudokuMap N elements")
  case (Inl e)
  with assms show ?thesis by (simp add: solve_def)
next
  case (Inr m)
  then have "m = elements" by (simp add: SudokuMap_def split: if_splits)
  with assms Inr run_keeps(1) [of N maxd elements 0 0 1] show ?thesis
    by (auto simp add: solve_def)
qed

theorem solve_keeps_prefilled_witness:
  "Inr (Some [1, 2, 3, 4, 3, 4, 1, 2, 2, 1, 4, 3, 4, 3, 2, 1],
        [0, 2, 3, 4, 3, 4, 0, 2, 2, 1, 4, 3, 4, 3, 2, 1])
     \<in> set (solve 4 [0, 2, 3, 4, 3, 4, 0, 2, 2, 1, 4, 3, 4, 3, 2, 1] 1)
   \<and> keeps_prefilled [0, 2, 3, 4, 3, 4, 0, 2, 2, 1, 4, 3, 4, 3, 2, 1]
        [1, 2, 3, 4, 3, 4, 1, 2, 2, 1, 4, 3, 4, 3, 2, 1]"
proof -
  have mem: "Inr (Some [1, 2, 3, 4, 3, 4, 1, 2, 2, 1, 4, 3, 4, 3, 2, 1],
        [0, 2, 3, 4, 3, 4, 0, 2, 2, 1, 4, 3, 4, 3, 2, 1])
     \<in> set (solve 4 [0, 2, 3, 4, 3, 4, 0, 2, 2, 1, 4, 3, 4, 3, 2, 1] 1)"
    by code_simp
  from mem solve_keeps_prefilled [OF mem] show ?thesis by simp
qed

text \<open>
  Claim C10. When a call of the search returns, in the sequential or in the parallel
  branch, the caller's grid holds the values it held at the call; so does the grid given
  to \<open>solve\<close>.
\<close>

theorem search_leaves_grid_unchanged:
  "(Inr (r, m') \<in> set (run N maxd m x y depth) \<longrightarrow> m' = m)
   \<and> (Inr (r, m') \<in> set (solve N elements maxd) \<longrightarrow> m' = elements)"
proof -
  have 1: "m' = m" if "Inr (r, m') \<in> set (run N maxd m x y depth)" for m x y depth
    using that run_frame(1) [of N maxd m x y depth] by blast
  have 2: "m' = elements" if a: "Inr (r, m') \<in> set (solve N elements maxd)"
  proof (cases "SudokuMap N elements")
    case (Inl e)
    with a show ?thesis by (simp add: solve_def)
  next
    case (Inr m)
    then have "m = elements" by (simp add: SudokuMap_def split: if_splits)
    with a Inr show ?thesis by (auto simp add: solve_def dest: 1)
  qed
  from 1 2 show ?thesis by blast
qed

theorem search_leaves_grid_unchanged_witness:
  "Inr (Some [1, 2, 3, 4, 3, 4, 1, 2, 2, 1, 4, 3, 4, 3, 2, 1],
        [1, 2, 0, 4, 3, 4, 1, 2, 0, 1, 4, 3, 4, 3, 2, 0])
     \<in> set (solve 4 [1, 2, 0, 4, 3, 4, 1, 2, 0, 1, 4, 3, 4, 3, 2, 0] 3)
   \<and> Inr (Some [1, 2, 3, 4, 3, 4, 1, 2, 2, 1, 4, 3, 4, 3, 2, 1],
          [1, 2, 3, 4, 3, 4, 1, 2, 0, 1, 4, 3, 4, 3, 2, 0])
     \<in> set (run 4 3 [1, 2, 3, 4, 3, 4, 1, 2, 0, 1, 4, 3, 4, 3, 2, 0] 3 0 2)"
proof -
  have mem: "Inr (Some [1, 2, 3, 4, 3, 4, 1, 2, 2, 1, 4, 3, 4, 3, 2, 1],
        [1, 2, 0, 4, 3, 4, 1, 2, 0, 1, 4, 3, 4, 3, 2, 0])
     \<in> set (solve 4 [1, 2, 0, 4, 3, 4, 1, 2, 0, 1, 4, 3, 4, 3, 2, 0] 3)"
    by code_simp
  have mem2: "Inr (Some [1, 2, 3, 4, 3, 4, 1, 2, 2, 1, 4, 3, 4, 3, 2, 1],
          [1, 2, 3, 4, 3, 4, 1, 2, 0, 1, 4, 3, 4, 3, 2, 0])
     \<in> set (run 4 3 [1, 2, 3, 4, 3, 4, 1, 2, 0, 1, 4, 3, 4, 3, 2, 0] 3 0 2)"
    by code_simp
  from mem mem2 search_leaves_grid_unchanged
    [where N = 4 and maxd = 3 and elements = "[1, 2, 0, 4, 3, 4, 1, 2, 0, 1, 4, 3, 4, 3, 2, 0]"]
  show ?thesis by blast
qed

section \<open>The search at or above the depth limit\<close>

lemma spec_search_terminal:
  "advance_y N x y \<ge> N \<Longrightarrow> spec_search N m x y = Inr (Some m)"
  by (simp add: spec_search.simps [of N m x y])

lemma spec_search_error:
  "\<not> advance_y N x y \<ge> N \<Longrightarrow>
   getElem N m (of_int (advance_x N x)) (of_int (advance_y N x y)) = Inl e \<Longrightarrow>
   spec_search N m x y = Inl e"
  by (simp add: spec_search.simps [of N m x y])

lemma spec_search_skip:
  "\<not> advance_y N x y \<ge> N \<Longrightarrow>
   getElem N m (of_int (advance_x N x)) (of_int (advance_y N x y)) = Inr v \<Longrightarrow> v \<noteq> 0 \<Longrightarrow>
   spec_search N m x y = spec_search N m (advance_x N x + 1) (advance_y N x y)"
  by (simp add: spec_search.simps [of N m x y])

lemma spec_search_branch:
  "\<not> advance_y N x y \<ge> N \<Longrightarrow>
   getElem N m (of_int (advance_x N x)) (of_int (advance_y N x y)) = Inr 0 \<Longrightarrow>
   spec_search N m x y = spec_branch N m (advance_x N x) (advance_y N x y) 1"
  by (simp add: spec_search.simps [of N m x y])

lemma seq_continue_single:
  "seq_continue [outcome_of m' res] m rest =
     (case res of Inl e \<Rightarrow> [Inl e] | Inr (Some g) \<Rightarrow> [Inr (Some g, m)] | Inr None \<Rightarrow> rest)"
  by (simp add: seq_continue_def outcome_of_def split: sum.splits option.splits)

lemma run_sequential:
  shows "maxd \<le> depth \<and> (y < N \<or> N \<le> x)
      \<longrightarrow> run N maxd m x y depth = [outcome_of m (spec_search N m x y)]"
    and "maxd \<le> depth \<and> y < N
      \<longrightarrow> seq_loop N maxd m x y depth i = [outcome_of m (spec_branch N m x y i)]"
    and "par_loop N maxd m x y depth i = par_loop N maxd m x y depth i"
proof (induct N maxd m x y depth and N maxd m x y depth i and N maxd m x y depth i
    rule: run_seq_loop_par_loop.induct)
  case (1 N maxd m x y depth)
  show ?case
  proof (intro impI, elim conjE)
    assume md: "maxd \<le> depth" and p: "y < N \<or> N \<le> x"
    let ?g = "getElem N m (of_int (advance_x N x)) (of_int (advance_y N x y))"
    have np: "\<not> takes_parallel_branch maxd depth"
      using md by (simp add: takes_parallel_branch_def)
    have t: "(x \<ge> N \<and> y + 1 \<ge> N) \<longleftrightarrow> advance_y N x y \<ge> N"
      using p by (auto simp add: advance_y_def)
    consider (terminal) "x \<ge> N \<and> y + 1 \<ge> N"
      | (error) e where "\<not> (x \<ge> N \<and> y + 1 \<ge> N)" "?g = Inl e"
      | (skip) v where "\<not> (x \<ge> N \<and> y + 1 \<ge> N)" "?g = Inr v" "v \<noteq> 0"
      | (seq) "\<not> (x \<ge> N \<and> y + 1 \<ge> N)" "?g = Inr 0"
      by (cases ?g) auto
    then show "run N maxd m x y depth = [outcome_of m (spec_search N m x y)]"
    proof cases
      case terminal
      then show ?thesis
        using t by (simp add: run_terminal spec_search_terminal outcome_of_def)
    next
      case error
      then show ?thesis
        using t by (simp add: run_error spec_search_error outcome_of_def)
    next
      case skip
      have y1: "advance_y N x y < N" using skip(1) t by simp
      have "run N maxd m (advance_x N x + 1) (advance_y N x y) depth
          = [outcome_of m (spec_search N m (advance_x N x + 1) (advance_y N x y))]"
        using 1(1) [OF skip] md y1 by simp
      then show ?thesis
        using skip t by (simp add: run_skip [OF skip] spec_search_skip)
    next
      case seq
      have y1: "advance_y N x y < N" using seq(1) t by simp
      have "seq_loop N maxd m (advance_x N x) (advance_y N x y) depth 1
          = [outcome_of m (spec_branch N m (advance_x N x) (advance_y N x y) 1)]"
        using 1(3) [OF seq(1,2) _ np] md y1 by simp
      then show ?thesis
        using seq t np by (simp add: run_seq [OF seq np] spec_search_branch)
    qed
  qed
next
  case (2 N maxd m x y depth i)
  show ?case
  proof (intro impI, elim conjE)
    assume md: "maxd \<le> depth" and y: "y < N"
    consider (finished) "\<not> i \<le> N"
      | (error) e where "i \<le> N" "isCandidate N m x y i = Inl e"
      | (reject) "i \<le> N" "isCandidate N m x y i = Inr False"
      | (set_error) e where "i \<le> N" "isCandidate N m x y i = Inr True"
          "setElem N m (of_int x) (of_int y) i = Inl e"
      | (accept) m' where "i \<le> N" "isCandidate N m x y i = Inr True"
          "setElem N m (of_int x) (of_int y) i = Inr m'"
      by (cases "isCandidate N m x y i"; cases "setElem N m (of_int x) (of_int y) i") auto
    then show "seq_loop N maxd m x y depth i = [outcome_of m (spec_branch N m x y i)]"
    proof cases
      case finished
      then show ?thesis
        by (simp add: seq_loop_done spec_branch.simps [of N m x y i] outcome_of_def)
    next
      case error
      then show ?thesis
        by (simp add: seq_loop_error spec_branch.simps [of N m x y i] outcome_of_def)
    next
      case reject
      have "seq_loop N maxd m x y depth (i + 1) = [outcome_of m (spec_branch N m x y (i + 1))]"
        using 2(3) [OF reject] md y by simp
      then show ?thesis
        using reject by (simp add: seq_loop_reject spec_branch.simps [of N m x y i])
    next
      case set_error
      then show ?thesis
        by (simp add: seq_loop_set_error spec_branch.simps [of N m x y i] outcome_of_def)
    next
      case accept
      have r: "run N maxd m' (x + 1) y (depth + 1) = [outcome_of m' (spec_search N m' (x + 1) y)]"
        using 2(1) [OF accept(1,2) _ accept(3)] md y by simp
      have l: "seq_loop N maxd m x y depth (i + 1) = [outcome_of m (spec_branch N m x y (i + 1))]"
        using 2(2) [OF accept(1,2) _ accept(3)] md y by simp
      have "seq_loop N maxd m x y depth i =
          (case spec_search N m' (x + 1) y of
             Inl e \<Rightarrow> [Inl e]
           | Inr (Some g) \<Rightarrow> [Inr (Some g, m)]
           | Inr None \<Rightarrow> [outcome_of m (spec_branch N m x y (i + 1))])"
        by (simp add: seq_loop_accept [OF accept] r l seq_continue_single)
      also have "\<dots> = [outcome_of m (spec_branch N m x y i)]"
        using accept
        by (simp add: spec_branch.simps [of N m x y i] outcome_of_def
            split: sum.splits option.splits)
      finally show ?thesis .
    qed
  qed
next
  case (3 N maxd m x y depth i)
  show ?case by simp
qed

text \<open>
  Claim C5. With a depth limit of at most 1 the test of the parallel branch fails at
  every depth from 1 on, and \<open>solve\<close> has one outcome only, the one of the sequential
  search of the specification: at each empty cell the candidates are tried in ascending
  order and the first one whose subtree yields a solution is returned, the later ones
  having no influence. The same holds for every call of \<open>run\<close> at a depth that is not
  below the limit.
\<close>

theorem sequential_when_depth_limit_at_most_one:
  "(maxd \<le> 1 \<longrightarrow> (\<forall>depth\<ge>1. \<not> takes_parallel_branch maxd depth))
   \<and> (maxd \<le> 1 \<longrightarrow> solve N elements maxd = [outcome_of elements (spec_solve N elements)])
   \<and> (maxd \<le> depth \<and> (y < N \<or> N \<le> x) \<longrightarrow>
        run N maxd m x y depth = [outcome_of m (spec_search N m x y)])"
proof (intro conjI impI allI)
  fix d :: int
  assume "maxd \<le> 1" "1 \<le> d"
  then show "\<not> takes_parallel_branch maxd d"
    by (simp add: takes_parallel_branch_def)
next
  assume md: "maxd \<le> 1"
  show "solve N elements maxd = [outcome_of elements (spec_solve N elements)]"
  proof (cases "int (length elements) = N * N")
    case False
    then show ?thesis
      by (simp add: solve_def spec_solve_def SudokuMap_def outcome_of_def)
  next
    case True
    have "run N maxd elements 0 0 1 = [outcome_of elements (spec_search N elements 0 0)]"
      using run_sequential(1) [of maxd 1 0 N 0 elements] md by auto
    with True show ?thesis
      by (simp add: solve_def spec_solve_def SudokuMap_def)
  qed
next
  assume "maxd \<le> depth \<and> (y < N \<or> N \<le> x)"
  then show "run N maxd m x y depth = [outcome_of m (spec_search N m x y)]"
    using run_sequential(1) [of maxd depth y N x m] by blast
qed

theorem sequential_when_depth_limit_at_most_one_witness:
  "\<not> takes_parallel_branch 1 1
   \<and> solve 4 [0, 2, 0, 4, 3, 4, 0, 2, 2, 1, 4, 3, 4, 3, 2, 1] 1
     = [outcome_of [0, 2, 0, 4, 3, 4, 0, 2, 2, 1, 4, 3, 4, 3, 2, 1]
          (spec_solve 4 [0, 2, 0, 4, 3, 4, 0, 2, 2, 1, 4, 3, 4, 3, 2, 1])]
   \<and> spec_solve 4 [0, 2, 0, 4, 3, 4, 0, 2, 2, 1, 4, 3, 4, 3, 2, 1]
     = Inr (Some [1, 2, 3, 4, 3, 4, 1, 2, 2, 1, 4, 3, 4, 3, 2, 1])
   \<and> run 4 2 [1, 2, 3, 4, 3, 4, 0, 2, 2, 1, 4, 3, 4, 3, 2, 1] 1 0 2
     = [outcome_of [1, 2, 3, 4, 3, 4, 0, 2, 2, 1, 4, 3, 4, 3, 2, 1]
          (spec_search 4 [1, 2, 3, 4, 3, 4, 0, 2, 2, 1, 4, 3, 4, 3, 2, 1] 1 0)]"
proof -
  have "spec_solve 4 [0, 2, 0, 4, 3, 4, 0, 2, 2, 1, 4, 3, 4, 3, 2, 1]
     = Inr (Some [1, 2, 3, 4, 3, 4, 1, 2, 2, 1, 4, 3, 4, 3, 2, 1])"
    by code_simp
  with sequential_when_depth_limit_at_most_one
    [where maxd = 1 and N = 4 and elements = "[0, 2, 0, 4, 3, 4, 0, 2, 2, 1, 4, 3, 4, 3, 2, 1]"]
    sequential_when_depth_limit_at_most_one
    [where maxd = 2 and depth = 2 and y = 0 and N = 4 and x = 1
       and m = "[1, 2, 3, 4, 3, 4, 0, 2, 2, 1, 4, 3, 4, 3, 2, 1]"]
  show ?thesis by simp
qed

section \<open>The search on a well-formed grid returns, and returns filled grids\<close>

lemma returns_filled_iff:
  "returns_filled outs \<longleftrightarrow>
     outs \<noteq> [] \<and> (\<forall>out\<in>set outs. \<exists>r m'. out = Inr (r, m') \<and> (\<forall>g. r = Some g \<longrightarrow> fully_filled g))"
proof -
  have "(case out of Inl _ \<Rightarrow> False | Inr (None, _) \<Rightarrow> True | Inr (Some g, _) \<Rightarrow> fully_filled g)
      \<longleftrightarrow> (\<exists>r m'. out = Inr (r, m') \<and> (\<forall>g. r = Some g \<longrightarrow> fully_filled g))" for out :: outcome
    by (cases out) (auto split: prod.splits option.splits)
  then show ?thesis by (simp add: returns_filled_def list_all_iff)
qed

lemma returns_filled_ex:
  assumes "returns_filled outs"
  shows "\<exists>r m'. Inr (r, m') \<in> set outs"
proof -
  from assms have "outs \<noteq> []" unfolding returns_filled_iff by blast
  then obtain out where o: "out \<in> set outs" by (cases outs) auto
  with assms obtain r m' where "out = Inr (r, m')"
    unfolding returns_filled_iff by blast
  with o show ?thesis by blast
qed

lemma returns_filled_no_error: "returns_filled outs \<Longrightarrow> Inl e \<notin> set outs"
  unfolding returns_filled_iff by blast

lemma returns_filled_Some:
  "returns_filled outs \<Longrightarrow> Inr (Some g, s) \<in> set outs \<Longrightarrow> fully_filled g"
  unfolding returns_filled_iff by blast

lemma returns_filledI:
  assumes "\<exists>out. out \<in> set outs" "\<And>e. Inl e \<notin> set outs"
    "\<And>g s. Inr (Some g, s) \<in> set outs \<Longrightarrow> fully_filled g"
  shows "returns_filled outs"
proof -
  have "\<exists>r m'. out = Inr (r, m') \<and> (\<forall>g. r = Some g \<longrightarrow> fully_filled g)"
    if o: "out \<in> set outs" for out
  proof (cases out)
    case (Inl e)
    with o assms(2) show ?thesis by blast
  next
    case (Inr p)
    obtain r m' where p: "p = (r, m')" by (cases p)
    have "fully_filled g" if "r = Some g" for g
      using assms(3) [of g m'] o Inr p that by simp
    with Inr p show ?thesis by blast
  qed
  moreover from assms(1) have "outs \<noteq> []" by auto
  ultimately show ?thesis unfolding returns_filled_iff by blast
qed

lemma returns_filled_omp_join:
  assumes "\<forall>t\<in>set tasks. returns_filled t"
  shows "returns_filled (omp_join tasks m)"
proof (rule returns_filledI)
  have fin: "\<forall>t\<in>set tasks. can_finish t"
    using assms returns_filled_ex unfolding can_finish_iff by blast
  show "\<exists>out. out \<in> set (omp_join tasks m)"
  proof (cases "\<exists>t\<in>set tasks. \<exists>g s. Inr (Some g, s) \<in> set t")
    case True
    then obtain t g s where "t \<in> set tasks" "Inr (Some g, s) \<in> set t" by blast
    with fin have "Inr (Some g, m) \<in> set (omp_join tasks m)"
      unfolding omp_join_Some by blast
    then show ?thesis by blast
  next
    case False
    have "can_return_null t" if t: "t \<in> set tasks" for t
    proof -
      from assms t have "returns_filled t" by blast
      then obtain r m' where o: "Inr (r, m') \<in> set t"
        using returns_filled_ex by blast
      with False t have "r = None" by (cases r) auto
      with o show ?thesis unfolding can_return_null_iff by blast
    qed
    then have "Inr (None, m) \<in> set (omp_join tasks m)"
      unfolding omp_join_None by blast
    then show ?thesis by blast
  qed
next
  fix e
  show "Inl e \<notin> set (omp_join tasks m)"
    using assms returns_filled_no_error unfolding omp_join_Inl by blast
next
  fix g s
  assume "Inr (Some g, s) \<in> set (omp_join tasks m)"
  then obtain t s' where "t \<in> set tasks" "Inr (Some g, s') \<in> set t"
    unfolding omp_join_Some by blast
  with assms show "fully_filled g" using returns_filled_Some by blast
qed

lemma returns_filled_seq_continue:
  assumes "returns_filled subs" "returns_filled rest"
  shows "returns_filled (seq_continue subs m rest)"
proof (rule returns_filledI)
  from assms(1) obtain r m' where o: "Inr (r, m') \<in> set subs"
    using returns_filled_ex by blast
  from assms(2) obtain r2 m2 where o2: "Inr (r2, m2) \<in> set rest"
    using returns_filled_ex by blast
  show "\<exists>out. out \<in> set (seq_continue subs m rest)"
  proof (cases r)
    case None
    with o o2 have "Inr (r2, m2) \<in> set (seq_continue subs m rest)"
      unfolding seq_continue_Inr by blast
    then show ?thesis by blast
  next
    case (Some g)
    with o have "Inr (Some g, m) \<in> set (seq_continue subs m rest)"
      unfolding seq_continue_Inr by blast
    then show ?thesis by blast
  qed
next
  fix e
  show "Inl e \<notin> set (seq_continue subs m rest)"
    using assms returns_filled_no_error unfolding seq_continue_Inl by blast
next
  fix g s
  assume "Inr (Some g, s) \<in> set (seq_continue subs m rest)"
  then have "(\<exists>s'. Inr (Some g, s') \<in> set subs) \<or> Inr (Some g, s) \<in> set rest"
    unfolding seq_continue_Inr by blast
  with assms show "fully_filled g" using returns_filled_Some by blast
qed

lemma prefix_filled_iff:
  "prefix_filled m k \<longleftrightarrow> (\<forall>j<k. j < length m \<longrightarrow> m ! j \<noteq> 0)"
  by (auto simp add: prefix_filled_def list_all_length)

lemma prefix_filled_all:
  "prefix_filled m k \<Longrightarrow> length m \<le> k \<Longrightarrow> fully_filled m"
  by (simp add: prefix_filled_def fully_filled_def)

lemma prefix_filled_Suc:
  "prefix_filled m k \<Longrightarrow> m ! k \<noteq> 0 \<Longrightarrow> prefix_filled m (Suc k)"
  by (auto simp add: prefix_filled_iff less_Suc_eq)

lemma prefix_filled_update:
  "prefix_filled m k \<Longrightarrow> v \<noteq> 0 \<Longrightarrow> prefix_filled (m[k := v]) (Suc k)"
  by (auto simp add: prefix_filled_iff less_Suc_eq nth_list_update)

lemma well_formed_update: "well_formed N s m \<Longrightarrow> well_formed N s (m[k := v])"
  by (simp add: well_formed_def)

lemma advance_in_range:
  assumes "\<not> (x \<ge> N \<and> y + 1 \<ge> N)" "0 \<le> x" "0 \<le> y" "y < N"
  shows "0 \<le> advance_x N x" "advance_x N x < N" "0 \<le> advance_y N x y" "advance_y N x y < N"
  using assms by (auto simp add: advance_x_def advance_y_def)

lemma advance_flat:
  "x \<le> N \<Longrightarrow> advance_x N x + advance_y N x y * N = x + y * N"
  by (auto simp add: advance_x_def advance_y_def algebra_simps)

lemma run_returns_filled:
  shows "well_formed N s m \<and> 0 \<le> x \<and> x \<le> N \<and> 0 \<le> y \<and> y < N
        \<and> prefix_filled m (nat (x + y * N))
      \<longrightarrow> returns_filled (run N maxd m x y depth)"
    and "well_formed N s m \<and> 0 \<le> x \<and> x < N \<and> 0 \<le> y \<and> y < N
        \<and> prefix_filled m (nat (x + y * N)) \<and> 1 \<le> i
      \<longrightarrow> returns_filled (seq_loop N maxd m x y depth i)"
    and "well_formed N s m \<and> 0 \<le> x \<and> x < N \<and> 0 \<le> y \<and> y < N
        \<and> prefix_filled m (nat (x + y * N)) \<and> 1 \<le> i
      \<longrightarrow> (\<exists>tasks. par_loop N maxd m x y depth i = Inr tasks
            \<and> (\<forall>t\<in>set tasks. returns_filled t))"
proof (induct N maxd m x y depth and N maxd m x y depth i and N maxd m x y depth i
    rule: run_seq_loop_par_loop.induct)
  case (1 N maxd m x y depth)
  show ?case
  proof (intro impI, elim conjE)
    assume wf: "well_formed N s m" and x: "0 \<le> x" "x \<le> N" and y: "0 \<le> y" "y < N"
      and pf: "prefix_filled m (nat (x + y * N))"
    from wf have b: "N * N < 2 ^ 31" and l: "int (length m) = N * N"
      by (auto simp add: well_formed_def)
    show "returns_filled (run N maxd m x y depth)"
    proof (cases "x \<ge> N \<and> y + 1 \<ge> N")
      case True
      with x y have xy: "x = N" "y = N - 1" by auto
      have "x + y * N = N * N" unfolding xy by (simp add: algebra_simps)
      with pf l have "fully_filled m" by (intro prefix_filled_all [of m "nat (x + y * N)"]) auto
      then show ?thesis
        using True by (simp add: run_terminal returns_filled_def)
    next
      case False
      let ?x = "advance_x N x" and ?y = "advance_y N x y"
      note r = advance_in_range [OF False x(1) y]
      have fl: "?x + ?y * N = x + y * N" using x(2) by (rule advance_flat)
      have g: "getElem N m (of_int ?x) (of_int ?y) = Inr (cell N m ?x ?y)"
        using r b l by (intro getElem_in_range) auto
      have pf': "prefix_filled m (nat (?x + ?y * N))" using pf fl by simp
      show ?thesis
      proof (cases "cell N m ?x ?y \<noteq> 0")
        case True
        have nn: "0 \<le> ?x + ?y * N" using r by simp
        have "prefix_filled m (Suc (nat (?x + ?y * N)))"
          using pf' True by (intro prefix_filled_Suc) (auto simp add: cell_def)
        moreover have "Suc (nat (?x + ?y * N)) = nat (?x + 1 + ?y * N)"
          using nn by linarith
        ultimately have "returns_filled (run N maxd m (?x + 1) ?y depth)"
          using 1(1) [OF False g True] wf r by simp
        then show ?thesis by (simp add: run_skip [OF False g True])
      next
        case z: False
        then have g0: "getElem N m (of_int ?x) (of_int ?y) = Inr 0" using g by simp
        show ?thesis
        proof (cases "takes_parallel_branch maxd depth")
          case True
          obtain tasks where "par_loop N maxd m ?x ?y depth 1 = Inr tasks"
            "\<forall>t\<in>set tasks. returns_filled t"
            using 1(2) [OF False g _ True] z wf r pf' by auto
          then show ?thesis
            by (simp add: run_par [OF False g0 True] returns_filled_omp_join)
        next
          case np: False
          have "returns_filled (seq_loop N maxd m ?x ?y depth 1)"
            using 1(3) [OF False g _ np] z wf r pf' by auto
          then show ?thesis by (simp add: run_seq [OF False g0 np])
        qed
      qed
    qed
  qed
next
  case (2 N maxd m x y depth i)
  show ?case
  proof (intro impI, elim conjE)
    assume wf: "well_formed N s m" and x: "0 \<le> x" "x < N" and y: "0 \<le> y" "y < N"
      and pf: "prefix_filled m (nat (x + y * N))" and i: "1 \<le> i"
    from wf have b: "N * N < 2 ^ 31" and l: "int (length m) = N * N"
      by (auto simp add: well_formed_def)
    have c: "isCandidate N m x y i = Inr (cell_free N s m x y i)"
      using wf x y by (intro isCandidate_eq) auto
    have st: "setElem N m (of_int x) (of_int y) i = Inr (m[nat (x + y * N) := i])"
      using x y b l by (intro setElem_in_range) auto
    show "returns_filled (seq_loop N maxd m x y depth i)"
    proof (cases "i \<le> N")
      case False
      then show ?thesis by (simp add: seq_loop_done returns_filled_def)
    next
      case le: True
      show ?thesis
      proof (cases "cell_free N s m x y i")
        case False
        with c have c': "isCandidate N m x y i = Inr False" by simp
        have "returns_filled (seq_loop N maxd m x y depth (i + 1))"
          using 2(3) [OF le c'] wf x y pf i by simp
        then show ?thesis by (simp add: seq_loop_reject [OF le c'])
      next
        case True
        with c have c': "isCandidate N m x y i = Inr True" by simp
        have nn: "0 \<le> x + y * N" using x y by simp
        have "prefix_filled (m[nat (x + y * N) := i]) (Suc (nat (x + y * N)))"
          using pf i by (intro prefix_filled_update) auto
        moreover have "Suc (nat (x + y * N)) = nat (x + 1 + y * N)"
          using nn by linarith
        ultimately have sub: "returns_filled
            (run N maxd (m[nat (x + y * N) := i]) (x + 1) y (depth + 1))"
          using 2(1) [OF le c' _ st] wf x y by (simp add: well_formed_update)
        have rest: "returns_filled (seq_loop N maxd m x y depth (i + 1))"
          using 2(2) [OF le c' _ st] wf x y pf i by simp
        show ?thesis
          by (simp add: seq_loop_accept [OF le c' st] returns_filled_seq_continue sub rest)
      qed
    qed
  qed
next
  case (3 N maxd m x y depth i)
  show ?case
  proof (intro impI, elim conjE)
    assume wf: "well_formed N s m" and x: "0 \<le> x" "x < N" and y: "0 \<le> y" "y < N"
      and pf: "prefix_filled m (nat (x + y * N))" and i: "1 \<le> i"
    from wf have b: "N * N < 2 ^ 31" and l: "int (length m) = N * N"
      by (auto simp add: well_formed_def)
    have c: "isCandidate N m x y i = Inr (cell_free N s m x y i)"
      using wf x y by (intro isCandidate_eq) auto
    have st: "setElem N m (of_int x) (of_int y) i = Inr (m[nat (x + y * N) := i])"
      using x y b l by (intro setElem_in_range) auto
    show "\<exists>tasks. par_loop N maxd m x y depth i = Inr tasks
        \<and> (\<forall>t\<in>set tasks. returns_filled t)"
    proof (cases "i \<le> N")
      case False
      then show ?thesis by (simp add: par_loop_done)
    next
      case le: True
      obtain rest where rest: "par_loop N maxd m x y depth (i + 1) = Inr rest"
        "\<forall>t\<in>set rest. returns_filled t"
        using 3(1) [OF le c] wf x y pf i by auto
      show ?thesis
      proof (cases "cell_free N s m x y i")
        case False
        with c have c': "isCandidate N m x y i = Inr False" by simp
        with rest show ?thesis by (simp add: par_loop_reject [OF le c'])
      next
        case True
        with c have c': "isCandidate N m x y i = Inr True" by simp
        have nn: "0 \<le> x + y * N" using x y by simp
        have "prefix_filled (m[nat (x + y * N) := i]) (Suc (nat (x + y * N)))"
          using pf i by (intro prefix_filled_update) auto
        moreover have "Suc (nat (x + y * N)) = nat (x + 1 + y * N)"
          using nn by linarith
        ultimately have sub: "returns_filled
            (run N maxd (m[nat (x + y * N) := i]) (x + 1) y (depth + 1))"
          using 3(2) [OF le c rest(1) _ st] True wf x y by (simp add: well_formed_update)
        show ?thesis
          using rest sub by (simp add: par_loop_accept [OF le c' rest(1)] st)
      qed
    qed
  qed
qed

section \<open>The search keeps a grid free of conflicts\<close>

lemma flat_inj:
  assumes "0 \<le> a" "a < N" "0 \<le> x" "x < (N::int)" "a + b * N = x + y * N"
  shows "a = x \<and> b = y"
proof -
  have "(a + b * N) mod N = a" "(x + y * N) mod N = x"
    using assms(1-4) by simp_all
  with assms(5) have ax: "a = x" by metis
  with assms(5) have "b * N = y * N" by simp
  moreover have "N \<noteq> 0" using assms(1,2) by auto
  ultimately show ?thesis using ax by simp
qed

lemma cell_update:
  assumes "0 \<le> a" "a < N" "0 \<le> b" "b < N" "0 \<le> x" "x < N" "0 \<le> y" "y < N"
    "int (length m) = N * N"
  shows "cell N (m[nat (x + y * N) := v]) a b = (if a = x \<and> b = y then v else cell N m a b)"
proof -
  have lt: "nat (x + y * N) < length m"
    using flat_bound [OF assms(5-8)] assms(9) by linarith
  have nn: "0 \<le> a + b * N" "0 \<le> x + y * N" using assms by simp_all
  show ?thesis
  proof (cases "a = x \<and> b = y")
    case True
    with lt show ?thesis by (simp add: cell_def)
  next
    case False
    have "a + b * N \<noteq> x + y * N"
      using flat_inj [OF assms(1,2,5,6)] False by blast
    with nn have "nat (a + b * N) \<noteq> nat (x + y * N)" by linarith
    with False show ?thesis by (auto simp add: cell_def)
  qed
qed

lemma same_unit_sym: "same_unit s x1 y1 x2 y2 \<Longrightarrow> same_unit s x2 y2 x1 y1"
  by (auto simp add: same_unit_def)

lemma div_eq_in_block:
  assumes "0 < s" "a div s = x div (s::int)"
  shows "block_start s x \<le> a" "a < block_start s x + s"
proof -
  have "a = (a div s) * s + a mod s" by simp
  then have e: "a = block_start s x + a mod s"
    unfolding block_start_def assms(2) .
  have m: "0 \<le> a mod s" "a mod s < s" using assms(1) by simp_all
  show "block_start s x \<le> a" using e m by linarith
  show "a < block_start s x + s" using e m by linarith
qed

lemma cell_free_same_unit:
  assumes "cell_free N s m x y v" "0 < s" "same_unit s x y a b"
    "0 \<le> a" "a < N" "0 \<le> b" "b < N"
  shows "cell N m a b \<noteq> v"
proof -
  from assms(3) consider "x = a" | "y = b" | "x div s = a div s \<and> y div s = b div s"
    unfolding same_unit_def by blast
  then show ?thesis
  proof cases
    case 1
    with assms show ?thesis by (simp add: cell_free_def)
  next
    case 2
    with assms show ?thesis by (simp add: cell_free_def)
  next
    case 3
    then have "a div s = x div s" "b div s = y div s" by simp_all
    from div_eq_in_block [OF assms(2) this(1)] div_eq_in_block [OF assms(2) this(2)]
    show ?thesis using assms(1) by (simp add: cell_free_def)
  qed
qed

lemma conflict_free_update:
  assumes wf: "well_formed N s m" and x: "0 \<le> x" "x < N" and y: "0 \<le> y" "y < N"
    and free: "cell_free N s m x y v" and cf: "conflict_free N s m"
  shows "conflict_free N s (m[nat (x + y * N) := v])"
proof -
  from wf have s: "0 < s" and l: "int (length m) = N * N"
    by (auto simp add: well_formed_def)
  let ?m = "m[nat (x + y * N) := v]"
  have "cell N ?m x1 y1 \<noteq> cell N ?m x2 y2"
    if r: "0 \<le> x1" "x1 < N" "0 \<le> y1" "y1 < N" "0 \<le> x2" "x2 < N" "0 \<le> y2" "y2 < N"
      and ne: "(x1, y1) \<noteq> (x2, y2)" and su: "same_unit s x1 y1 x2 y2"
      and nz: "cell N ?m x1 y1 \<noteq> 0" for x1 y1 x2 y2
  proof -
    have c1: "cell N ?m x1 y1 = (if x1 = x \<and> y1 = y then v else cell N m x1 y1)"
      using r x y l by (intro cell_update) auto
    have c2: "cell N ?m x2 y2 = (if x2 = x \<and> y2 = y then v else cell N m x2 y2)"
      using r x y l by (intro cell_update) auto
    show ?thesis
    proof (cases "x1 = x \<and> y1 = y")
      case True
      with ne have "\<not> (x2 = x \<and> y2 = y)" by auto
      moreover have "cell N m x2 y2 \<noteq> v"
        using free s su True r by (intro cell_free_same_unit [of N s m x y v x2 y2]) auto
      ultimately show ?thesis using c1 c2 True by auto
    next
      case False
      show ?thesis
      proof (cases "x2 = x \<and> y2 = y")
        case True
        have "cell N m x1 y1 \<noteq> v"
          using free s same_unit_sym [OF su] True r
          by (intro cell_free_same_unit [of N s m x y v x1 y1]) auto
        with c1 c2 True False show ?thesis by auto
      next
        case f2: False
        have "cell N m x1 y1 \<noteq> cell N m x2 y2"
          using cf r ne su nz c1 False unfolding conflict_free_def by auto
        with c1 c2 False f2 show ?thesis by auto
      qed
    qed
  qed
  then show ?thesis unfolding conflict_free_def by auto
qed

lemma values_in_range_update:
  "values_in_range N m \<Longrightarrow> 0 \<le> v \<Longrightarrow> v \<le> N \<Longrightarrow> values_in_range N (m[k := v])"
  unfolding values_in_range_def list_all_iff
  using set_update_subset_insert [of m k v] by auto

lemma run_conflict_free:
  shows "well_formed N s m \<and> 0 \<le> x \<and> 0 \<le> y \<and> y < N
        \<and> conflict_free N s m \<and> values_in_range N m
      \<longrightarrow> (\<forall>g s'. Inr (Some g, s') \<in> set (run N maxd m x y depth)
            \<longrightarrow> conflict_free N s g \<and> values_in_range N g)"
    and "well_formed N s m \<and> 0 \<le> x \<and> x < N \<and> 0 \<le> y \<and> y < N
        \<and> conflict_free N s m \<and> values_in_range N m \<and> 1 \<le> i
      \<longrightarrow> (\<forall>g s'. Inr (Some g, s') \<in> set (seq_loop N maxd m x y depth i)
            \<longrightarrow> conflict_free N s g \<and> values_in_range N g)"
    and "well_formed N s m \<and> 0 \<le> x \<and> x < N \<and> 0 \<le> y \<and> y < N
        \<and> conflict_free N s m \<and> values_in_range N m \<and> 1 \<le> i
      \<longrightarrow> (\<forall>tasks. par_loop N maxd m x y depth i = Inr tasks \<longrightarrow>
            (\<forall>t\<in>set tasks. \<forall>g s'. Inr (Some g, s') \<in> set t
              \<longrightarrow> conflict_free N s g \<and> values_in_range N g))"
proof (induct N maxd m x y depth and N maxd m x y depth i and N maxd m x y depth i
    rule: run_seq_loop_par_loop.induct)
  case (1 N maxd m x y depth)
  show ?case
  proof (intro impI allI, elim conjE)
    fix g s'
    assume wf: "well_formed N s m" and x: "0 \<le> x" and y: "0 \<le> y" "y < N"
      and cf: "conflict_free N s m" and vr: "values_in_range N m"
      and mem: "Inr (Some g, s') \<in> set (run N maxd m x y depth)"
    from wf have b: "N * N < 2 ^ 31" and l: "int (length m) = N * N"
      by (auto simp add: well_formed_def)
    show "conflict_free N s g \<and> values_in_range N g"
    proof (cases "x \<ge> N \<and> y + 1 \<ge> N")
      case True
      with mem cf vr show ?thesis by (simp add: run_terminal)
    next
      case False
      let ?x = "advance_x N x" and ?y = "advance_y N x y"
      note r = advance_in_range [OF False x y]
      have gt: "getElem N m (of_int ?x) (of_int ?y) = Inr (cell N m ?x ?y)"
        using r b l by (intro getElem_in_range) auto
      show ?thesis
      proof (cases "cell N m ?x ?y \<noteq> 0")
        case True
        from mem have "Inr (Some g, s') \<in> set (run N maxd m (?x + 1) ?y depth)"
          by (simp add: run_skip [OF False gt True])
        moreover have "\<forall>g s'. Inr (Some g, s') \<in> set (run N maxd m (?x + 1) ?y depth)
            \<longrightarrow> conflict_free N s g \<and> values_in_range N g"
          using 1(1) [OF False gt True] wf r cf vr by simp
        ultimately show ?thesis by blast
      next
        case z: False
        then have g0: "getElem N m (of_int ?x) (of_int ?y) = Inr 0" using gt by simp
        show ?thesis
        proof (cases "takes_parallel_branch maxd depth")
          case True
          have ih: "\<forall>tasks. par_loop N maxd m ?x ?y depth 1 = Inr tasks \<longrightarrow>
              (\<forall>t\<in>set tasks. \<forall>g s'. Inr (Some g, s') \<in> set t
                \<longrightarrow> conflict_free N s g \<and> values_in_range N g)"
            using 1(2) [OF False gt _ True] z wf r cf vr by simp
          show ?thesis
          proof (cases "par_loop N maxd m ?x ?y depth 1")
            case (Inl e)
            with mem show ?thesis by (simp add: run_par [OF False g0 True])
          next
            case (Inr tasks)
            with mem have "Inr (Some g, s') \<in> set (omp_join tasks m)"
              by (simp add: run_par [OF False g0 True])
            then obtain t s2 where "t \<in> set tasks" "Inr (Some g, s2) \<in> set t"
              unfolding omp_join_Some by blast
            with ih Inr show ?thesis by blast
          qed
        next
          case np: False
          from mem have "Inr (Some g, s') \<in> set (seq_loop N maxd m ?x ?y depth 1)"
            by (simp add: run_seq [OF False g0 np])
          moreover have "\<forall>g s'. Inr (Some g, s') \<in> set (seq_loop N maxd m ?x ?y depth 1)
              \<longrightarrow> conflict_free N s g \<and> values_in_range N g"
            using 1(3) [OF False gt _ np] z wf r cf vr by simp
          ultimately show ?thesis by blast
        qed
      qed
    qed
  qed
next
  case (2 N maxd m x y depth i)
  show ?case
  proof (intro impI allI, elim conjE)
    fix g s'
    assume wf: "well_formed N s m" and x: "0 \<le> x" "x < N" and y: "0 \<le> y" "y < N"
      and cf: "conflict_free N s m" and vr: "values_in_range N m" and i: "1 \<le> i"
      and mem: "Inr (Some g, s') \<in> set (seq_loop N maxd m x y depth i)"
    from wf have b: "N * N < 2 ^ 31" and l: "int (length m) = N * N"
      by (auto simp add: well_formed_def)
    have c: "isCandidate N m x y i = Inr (cell_free N s m x y i)"
      using wf x y by (intro isCandidate_eq) auto
    have st: "setElem N m (of_int x) (of_int y) i = Inr (m[nat (x + y * N) := i])"
      using x y b l by (intro setElem_in_range) auto
    show "conflict_free N s g \<and> values_in_range N g"
    proof (cases "i \<le> N")
      case False
      with mem show ?thesis by (simp add: seq_loop_done)
    next
      case le: True
      show ?thesis
      proof (cases "cell_free N s m x y i")
        case False
        with c have c': "isCandidate N m x y i = Inr False" by simp
        from mem have "Inr (Some g, s') \<in> set (seq_loop N maxd m x y depth (i + 1))"
          by (simp add: seq_loop_reject [OF le c'])
        moreover have "\<forall>g s'. Inr (Some g, s') \<in> set (seq_loop N maxd m x y depth (i + 1))
            \<longrightarrow> conflict_free N s g \<and> values_in_range N g"
          using 2(3) [OF le c'] wf x y cf vr i by simp
        ultimately show ?thesis by blast
      next
        case True
        with c have c': "isCandidate N m x y i = Inr True" by simp
        let ?m = "m[nat (x + y * N) := i]"
        have cf': "conflict_free N s ?m"
          using wf x y True cf by (rule conflict_free_update)
        have vr': "values_in_range N ?m"
          using vr i le by (intro values_in_range_update) auto
        from mem consider s2 where "Inr (Some g, s2) \<in> set (run N maxd ?m (x + 1) y (depth + 1))"
          | "Inr (Some g, s') \<in> set (seq_loop N maxd m x y depth (i + 1))"
          unfolding seq_loop_accept [OF le c' st] seq_continue_Inr by blast
        then show ?thesis
        proof cases
          case 1
          moreover have "\<forall>g s'. Inr (Some g, s') \<in> set (run N maxd ?m (x + 1) y (depth + 1))
              \<longrightarrow> conflict_free N s g \<and> values_in_range N g"
            using "2.hyps"(1) [OF le c' _ st] wf x y cf' vr' by (simp add: well_formed_update)
          ultimately show ?thesis by blast
        next
          case 2
          moreover have "\<forall>g s'. Inr (Some g, s') \<in> set (seq_loop N maxd m x y depth (i + 1))
              \<longrightarrow> conflict_free N s g \<and> values_in_range N g"
            using "2.hyps"(2) [OF le c' _ st] wf x y cf vr i by simp
          ultimately show ?thesis by blast
        qed
      qed
    qed
  qed
next
  case (3 N maxd m x y depth i)
  show ?case
  proof (intro impI allI ballI, elim conjE)
    fix tasks t g s'
    assume wf: "well_formed N s m" and x: "0 \<le> x" "x < N" and y: "0 \<le> y" "y < N"
      and cf: "conflict_free N s m" and vr: "values_in_range N m" and i: "1 \<le> i"
      and p: "par_loop N maxd m x y depth i = Inr tasks"
      and t: "t \<in> set tasks" and mem: "Inr (Some g, s') \<in> set t"
    from wf have b: "N * N < 2 ^ 31" and l: "int (length m) = N * N"
      by (auto simp add: well_formed_def)
    have c: "isCandidate N m x y i = Inr (cell_free N s m x y i)"
      using wf x y by (intro isCandidate_eq) auto
    have st: "setElem N m (of_int x) (of_int y) i = Inr (m[nat (x + y * N) := i])"
      using x y b l by (intro setElem_in_range) auto
    show "conflict_free N s g \<and> values_in_range N g"
    proof (cases "i \<le> N")
      case False
      with p t show ?thesis by (simp add: par_loop_done)
    next
      case le: True
      show ?thesis
      proof (cases "par_loop N maxd m x y depth (i + 1)")
        case (Inl e)
        with p le c show ?thesis by (simp add: par_loop_rest_error)
      next
        case r: (Inr rest)
        have ih: "conflict_free N s g \<and> values_in_range N g"
          if "t \<in> set rest" "Inr (Some g, s') \<in> set t" for t g s'
        proof -
          have "\<forall>tasks. par_loop N maxd m x y depth (i + 1) = Inr tasks \<longrightarrow>
              (\<forall>t\<in>set tasks. \<forall>g s'. Inr (Some g, s') \<in> set t
                \<longrightarrow> conflict_free N s g \<and> values_in_range N g)"
            using 3(1) [OF le c] wf x y cf vr i by simp
          with r that show ?thesis by blast
        qed
        show ?thesis
        proof (cases "cell_free N s m x y i")
          case False
          with c have c': "isCandidate N m x y i = Inr False" by simp
          with p r have "tasks = rest" by (simp add: par_loop_reject [OF le c'])
          with ih t mem show ?thesis by blast
        next
          case True
          with c have c': "isCandidate N m x y i = Inr True" by simp
          let ?m = "m[nat (x + y * N) := i]"
          have cf': "conflict_free N s ?m"
            using wf x y True cf by (rule conflict_free_update)
          have vr': "values_in_range N ?m"
            using vr i le by (intro values_in_range_update) auto
          from p r have "tasks = run N maxd ?m (x + 1) y (depth + 1) # rest"
            by (simp add: par_loop_accept [OF le c' r] st)
          with t consider "t = run N maxd ?m (x + 1) y (depth + 1)" | "t \<in> set rest"
            by auto
          then show ?thesis
          proof cases
            case 1
            moreover have "\<forall>g s'. Inr (Some g, s') \<in> set (run N maxd ?m (x + 1) y (depth + 1))
                \<longrightarrow> conflict_free N s g \<and> values_in_range N g"
              using 3(2) [OF le c r _ st] True wf x y cf' vr' by (simp add: well_formed_update)
            ultimately show ?thesis using mem by blast
          next
            case 2
            with ih mem show ?thesis by blast
          qed
        qed
      qed
    qed
  qed
qed

section \<open>Lines and sub-blocks as lists of cells\<close>

lemma concat_map_product:
  "concat (map (\<lambda>i. map (\<lambda>j. f i j) ys) xs) = map (\<lambda>(i, j). f i j) (List.product xs ys)"
  by (induction xs) simp_all

lemma sub_block_product:
  "sub_block N s m x0 y0 =
     map (\<lambda>(i, j). cell N m i j) (List.product [x0..x0 + s - 1] [y0..y0 + s - 1])"
  by (simp add: sub_block_def concat_map_product)

lemma all_lines_unit_cells:
  "all_lines N s m = map (map (\<lambda>(i, j). cell N m i j)) (unit_cells N s)"
  by (simp add: all_lines_def unit_cells_def row_line_def col_line_def sub_block_product
      map_concat comp_def)

lemma unit_cells_cases:
  assumes "u \<in> set (unit_cells N s)"
  obtains (row) x where "0 \<le> x" "x < N" "u = map (Pair x) [0..N - 1]"
    | (col) y where "0 \<le> y" "y < N" "u = map (\<lambda>i. (i, y)) [0..N - 1]"
    | (block) i j where "0 \<le> i" "i < s" "0 \<le> j" "j < s"
        "u = List.product [i * s..i * s + s - 1] [j * s..j * s + s - 1]"
proof -
  from assms consider
    "u \<in> set (map (\<lambda>x. map (Pair x) [0..N - 1]) [0..N - 1])"
    | "u \<in> set (map (\<lambda>y. map (\<lambda>i. (i, y)) [0..N - 1]) [0..N - 1])"
    | "u \<in> set (concat (map (\<lambda>i. map (\<lambda>j. List.product [i * s..i * s + s - 1]
          [j * s..j * s + s - 1]) [0..s - 1]) [0..s - 1]))"
    unfolding unit_cells_def set_append by blast
  then show thesis
  proof cases
    case 1
    then obtain x where "x \<in> set [0..N - 1]" "u = map (Pair x) [0..N - 1]"
      unfolding set_map by blast
    then show thesis using row [of x] by simp
  next
    case 2
    then obtain y where "y \<in> set [0..N - 1]" "u = map (\<lambda>i. (i, y)) [0..N - 1]"
      unfolding set_map by blast
    then show thesis using col [of y] by simp
  next
    case 3
    then obtain l where l: "l \<in> set (map (\<lambda>i. map (\<lambda>j. List.product [i * s..i * s + s - 1]
          [j * s..j * s + s - 1]) [0..s - 1]) [0..s - 1])" and ul: "u \<in> set l"
      unfolding set_concat by blast
    from l obtain i where i: "i \<in> set [0..s - 1]"
      and "l = map (\<lambda>j. List.product [i * s..i * s + s - 1] [j * s..j * s + s - 1]) [0..s - 1]"
      unfolding set_map by blast
    with ul have "u \<in> set (map (\<lambda>j. List.product [i * s..i * s + s - 1]
        [j * s..j * s + s - 1]) [0..s - 1])"
      by simp
    then obtain j where "j \<in> set [0..s - 1]"
      "u = List.product [i * s..i * s + s - 1] [j * s..j * s + s - 1]"
      unfolding set_map by blast
    with i show thesis using block [of i j] by simp
  qed
qed

lemma block_coordinate:
  assumes "0 < s" "0 \<le> i" "i < s" "i * s \<le> a" "a \<le> i * s + s - (1::int)"
  shows "0 \<le> a" "a < s * s" "a div s = i"
proof -
  have "0 \<le> i * s" using assms by simp
  with assms show "0 \<le> a" by linarith
  have "(i + 1) * s \<le> s * s" using assms by (intro mult_right_mono) auto
  then have "i * s + s \<le> s * s" by (simp add: algebra_simps)
  with assms show "a < s * s" by linarith
  have "((a - i * s) + i * s) div s = i + (a - i * s) div s"
    using assms(1) by (intro div_mult_self1) simp
  moreover have "(a - i * s) div s = 0"
    using assms by (intro div_pos_pos_trivial) auto
  ultimately show "a div s = i" by simp
qed

lemma div_less_side:
  assumes "0 < s" "0 \<le> c" "c < s * (s::int)"
  shows "c div s < s"
proof -
  have "c = (c div s) * s + c mod s" by simp
  moreover have "0 \<le> c mod s" using assms by simp
  ultimately have "(c div s) * s < s * s" using assms by linarith
  then show ?thesis using assms by (simp add: mult_less_cancel_right_pos)
qed

lemma unit_cells_props:
  assumes s: "0 < s" and N: "s * s = N" and u: "u \<in> set (unit_cells N s)"
  shows "distinct u" and "length u = nat N"
    and "\<And>a b. (a, b) \<in> set u \<Longrightarrow> 0 \<le> a \<and> a < N \<and> 0 \<le> b \<and> b < N"
    and "\<And>a b c d. (a, b) \<in> set u \<Longrightarrow> (c, d) \<in> set u \<Longrightarrow> same_unit s a b c d"
proof -
  have all: "distinct u \<and> length u = nat N
      \<and> (\<forall>a b. (a, b) \<in> set u \<longrightarrow> 0 \<le> a \<and> a < N \<and> 0 \<le> b \<and> b < N)
      \<and> (\<forall>a b c d. (a, b) \<in> set u \<longrightarrow> (c, d) \<in> set u \<longrightarrow> same_unit s a b c d)"
    using u
  proof (cases rule: unit_cells_cases)
    case (row x)
    then show ?thesis
      by (auto simp add: distinct_map inj_on_def same_unit_def)
  next
    case (col y)
    then show ?thesis
      by (auto simp add: distinct_map inj_on_def same_unit_def)
  next
    case (block i j)
    have d: "distinct u" using block by (simp add: distinct_product)
    have "length u = nat s * nat s" using block s by simp
    also have "\<dots> = nat (s * s)" using s by (simp add: nat_mult_distrib)
    finally have l: "length u = nat N" unfolding N .
    have r: "0 \<le> a \<and> a < N \<and> 0 \<le> b \<and> b < N \<and> a div s = i \<and> b div s = j"
      if "(a, b) \<in> set u" for a b
    proof -
      from that block have "i * s \<le> a" "a \<le> i * s + s - 1" "j * s \<le> b" "b \<le> j * s + s - 1"
        by auto
      with block_coordinate [OF s block(1,2), of a] block_coordinate [OF s block(3,4), of b] N
      show ?thesis by simp
    qed
    have "same_unit s a b c d" if "(a, b) \<in> set u" "(c, d) \<in> set u" for a b c d
      using r [OF that(1)] r [OF that(2)] by (simp add: same_unit_def)
    with d l r show ?thesis by blast
  qed
  from all show "distinct u" by blast
  from all show "length u = nat N" by blast
  from all show "\<And>a b. (a, b) \<in> set u \<Longrightarrow> 0 \<le> a \<and> a < N \<and> 0 \<le> b \<and> b < N" by blast
  from all show "\<And>a b c d. (a, b) \<in> set u \<Longrightarrow> (c, d) \<in> set u \<Longrightarrow> same_unit s a b c d"
    by blast
qed

lemma unit_cells_cover:
  assumes s: "0 < s" and N: "s * s = N"
    and r: "0 \<le> x1" "x1 < N" "0 \<le> y1" "y1 < N" "0 \<le> x2" "x2 < N" "0 \<le> y2" "y2 < N"
    and su: "same_unit s x1 y1 x2 y2"
  shows "\<exists>u\<in>set (unit_cells N s). (x1, y1) \<in> set u \<and> (x2, y2) \<in> set u"
proof -
  from su consider "x1 = x2" | "y1 = y2" | "x1 div s = x2 div s \<and> y1 div s = y2 div s"
    unfolding same_unit_def by blast
  then show ?thesis
  proof cases
    case 1
    have "x1 \<in> {0..N - 1}" using r by simp
    then have "map (Pair x1) [0..N - 1] \<in> (\<lambda>x. map (Pair x) [0..N - 1]) ` {0..N - 1}"
      by (rule imageI)
    then have "map (Pair x1) [0..N - 1] \<in> set (unit_cells N s)"
      by (simp add: unit_cells_def)
    moreover have "(x1, y1) \<in> set (map (Pair x1) [0..N - 1])"
      "(x2, y2) \<in> set (map (Pair x1) [0..N - 1])"
      using r 1 by auto
    ultimately show ?thesis by blast
  next
    case 2
    have "y1 \<in> {0..N - 1}" using r by simp
    then have "map (\<lambda>i. (i, y1)) [0..N - 1]
        \<in> (\<lambda>y. map (\<lambda>i. (i, y)) [0..N - 1]) ` {0..N - 1}"
      by (rule imageI)
    then have "map (\<lambda>i. (i, y1)) [0..N - 1] \<in> set (unit_cells N s)"
      by (simp add: unit_cells_def)
    moreover have "(x1, y1) \<in> set (map (\<lambda>i. (i, y1)) [0..N - 1])"
      "(x2, y2) \<in> set (map (\<lambda>i. (i, y1)) [0..N - 1])"
      using r 2 by auto
    ultimately show ?thesis by blast
  next
    case 3
    let ?i = "x1 div s" and ?j = "y1 div s"
    let ?u = "List.product [?i * s..?i * s + s - 1] [?j * s..?j * s + s - 1]"
    note bx = block_start_bounds [OF s r(1) r(2) [folded N]]
    note by' = block_start_bounds [OF s r(3) r(4) [folded N]]
    have i: "0 \<le> ?i" "?i < s" "0 \<le> ?j" "?j < s"
      using s r N div_less_side [of s x1] div_less_side [of s y1]
      by (simp_all add: pos_imp_zdiv_nonneg_iff)
    have "?i \<in> {0..s - 1}" "?j \<in> {0..s - 1}" using i by simp_all
    then have "\<exists>i\<in>{0..s - 1}. ?u \<in> (\<lambda>j. List.product [i * s..i * s + s - 1]
        [j * s..j * s + s - 1]) ` {0..s - 1}"
      by blast
    then have "?u \<in> set (unit_cells N s)"
      by (simp add: unit_cells_def)
    moreover have "(x1, y1) \<in> set ?u"
      using bx by' by (simp add: block_start_def)
    moreover have "(x2, y2) \<in> set ?u"
      using div_eq_in_block [OF s, of x2 x1] div_eq_in_block [OF s, of y2 y1] 3
      by (simp add: block_start_def)
    ultimately show ?thesis by blast
  qed
qed

lemma distinct_filter_map_neq:
  "distinct (filter P (map f xs)) \<Longrightarrow> a \<in> set xs \<Longrightarrow> b \<in> set xs \<Longrightarrow> a \<noteq> b \<Longrightarrow> P (f a)
   \<Longrightarrow> f a \<noteq> f b"
proof (induction xs)
  case Nil
  then show ?case by simp
next
  case (Cons x xs)
  show ?case
  proof (cases "a = x")
    case True
    with Cons.prems have "b \<in> set xs" "f x \<notin> set (filter P (map f xs))" by auto
    with Cons.prems True show ?thesis by auto
  next
    case False
    show ?thesis
    proof (cases "b = x")
      case True
      with Cons.prems False have a: "a \<in> set xs" by auto
      show ?thesis
      proof
        assume e: "f a = f b"
        with Cons.prems True have px: "P (f x)" by simp
        with Cons.prems have "f x \<notin> set (filter P (map f xs))" by simp
        with px have "f x \<notin> f ` set xs" by simp
        moreover from a have "f a \<in> f ` set xs" by (rule imageI)
        ultimately show False using e True by simp
      qed
    next
      case b: False
      with False Cons.prems have "a \<in> set xs" "b \<in> set xs"
        "distinct (filter P (map f xs))"
        by (auto split: if_splits)
      with Cons.IH Cons.prems show ?thesis by blast
    qed
  qed
qed

lemma distinct_filter_mapI:
  "distinct xs \<Longrightarrow> (\<And>a b. a \<in> set xs \<Longrightarrow> b \<in> set xs \<Longrightarrow> a \<noteq> b \<Longrightarrow> P (f a) \<Longrightarrow> f a \<noteq> f b)
   \<Longrightarrow> distinct (filter P (map f xs))"
proof (induction xs)
  case Nil
  then show ?case by simp
next
  case (Cons x xs)
  have ih: "distinct (filter P (map f xs))"
    using Cons.prems by (intro Cons.IH) auto
  have "f x \<notin> set (filter P (map f xs))" if "P (f x)"
  proof
    assume "f x \<in> set (filter P (map f xs))"
    then obtain b where b: "b \<in> set xs" "f b = f x" by auto
    with Cons.prems(1) have "x \<noteq> b" by auto
    with Cons.prems(2) [of x b] b that show False by auto
  qed
  with ih show ?case by simp
qed

lemma conflict_freeD:
  assumes "conflict_free N s m" "0 \<le> x1 \<and> x1 < N \<and> 0 \<le> y1 \<and> y1 < N"
    "0 \<le> x2 \<and> x2 < N \<and> 0 \<le> y2 \<and> y2 < N" "(x1, y1) \<noteq> (x2, y2)"
    "same_unit s x1 y1 x2 y2" "cell N m x1 y1 \<noteq> 0"
  shows "cell N m x1 y1 \<noteq> cell N m x2 y2"
proof -
  have "x1 \<in> {0..<N}" "y1 \<in> {0..<N}" "x2 \<in> {0..<N}" "y2 \<in> {0..<N}"
    using assms(2,3) by simp_all
  with assms(1) have "(x1, y1) \<noteq> (x2, y2) \<and> same_unit s x1 y1 x2 y2 \<and> cell N m x1 y1 \<noteq> 0
      \<longrightarrow> cell N m x1 y1 \<noteq> cell N m x2 y2"
    unfolding conflict_free_def by blast
  with assms(4-6) show ?thesis by blast
qed

lemma no_duplicates_iff:
  "no_duplicates N s m \<longleftrightarrow>
     (\<forall>u\<in>set (unit_cells N s). distinct (filter (\<lambda>v. v \<noteq> 0) (map (\<lambda>(i, j). cell N m i j) u)))"
  by (simp add: no_duplicates_def all_lines_unit_cells list_all_iff)

lemma no_duplicates_conflict_free:
  assumes wf: "well_formed N s m"
  shows "no_duplicates N s m \<longleftrightarrow> conflict_free N s m"
proof
  from wf have s: "0 < s" and N: "s * s = N" by (auto simp add: well_formed_def)
  {
    assume nd: "no_duplicates N s m"
    have "cell N m x1 y1 \<noteq> cell N m x2 y2"
      if r: "0 \<le> x1" "x1 < N" "0 \<le> y1" "y1 < N" "0 \<le> x2" "x2 < N" "0 \<le> y2" "y2 < N"
        and ne: "(x1, y1) \<noteq> (x2, y2)" and su: "same_unit s x1 y1 x2 y2"
        and nz: "cell N m x1 y1 \<noteq> 0" for x1 y1 x2 y2
    proof -
      from unit_cells_cover [OF s N r su] obtain u where u: "u \<in> set (unit_cells N s)"
        "(x1, y1) \<in> set u" "(x2, y2) \<in> set u" by blast
      with nd have "distinct (filter (\<lambda>v. v \<noteq> 0) (map (\<lambda>(i, j). cell N m i j) u))"
        unfolding no_duplicates_iff by blast
      from distinct_filter_map_neq [OF this u(2,3) ne] nz show ?thesis by simp
    qed
    then show "conflict_free N s m" unfolding conflict_free_def by auto
  }
  {
    assume cf: "conflict_free N s m"
    have "distinct (filter (\<lambda>v. v \<noteq> 0) (map (\<lambda>(i, j). cell N m i j) u))"
      if u: "u \<in> set (unit_cells N s)" for u
    proof (rule distinct_filter_mapI)
      show "distinct u" using unit_cells_props(1) [OF s N u] .
    next
      fix a b :: "int \<times> int"
      assume ab: "a \<in> set u" "b \<in> set u" "a \<noteq> b"
        and nz: "(case a of (i, j) \<Rightarrow> cell N m i j) \<noteq> 0"
      obtain x1 y1 x2 y2 where p: "a = (x1, y1)" "b = (x2, y2)" by (cases a, cases b) auto
      from ab p unit_cells_props(3) [OF s N u] unit_cells_props(4) [OF s N u]
      have "0 \<le> x1 \<and> x1 < N \<and> 0 \<le> y1 \<and> y1 < N" "0 \<le> x2 \<and> x2 < N \<and> 0 \<le> y2 \<and> y2 < N"
        "same_unit s x1 y1 x2 y2" by blast+
      moreover have "(x1, y1) \<noteq> (x2, y2)" "cell N m x1 y1 \<noteq> 0" using ab p nz by auto
      ultimately have "cell N m x1 y1 \<noteq> cell N m x2 y2"
        using cf by (intro conflict_freeD [of N s m]) auto
      with p show "(case a of (i, j) \<Rightarrow> cell N m i j) \<noteq> (case b of (i, j) \<Rightarrow> cell N m i j)"
        by simp
    qed
    then show "no_duplicates N s m" unfolding no_duplicates_iff by blast
  }
qed

lemma distinct_count_list: "distinct xs \<Longrightarrow> x \<in> set xs \<Longrightarrow> count_list xs x = 1"
  by (induction xs) auto

lemma cell_in_range:
  assumes "int (length m) = N * N" "0 \<le> a" "a < N" "0 \<le> b" "b < N"
  shows "cell N m a b \<in> set m"
proof -
  have "nat (a + b * N) < length m"
    using flat_bound [OF assms(2-5)] assms(1) by linarith
  then show ?thesis by (simp add: cell_def)
qed

lemma uniqueness_conflict_free:
  assumes wf: "well_formed N s g" and full: "fully_filled g" and vr: "values_in_range N g"
    and cf: "conflict_free N s g"
  shows "uniqueness N s g"
proof -
  from wf have s: "0 < s" and N: "s * s = N" and l: "int (length g) = N * N"
    by (auto simp add: well_formed_def)
  have n0: "0 < N" using s N by auto
  have val: "cell N g a b \<in> {1..N}" if "0 \<le> a" "a < N" "0 \<le> b" "b < N" for a b
  proof -
    have "cell N g a b \<in> set g" using l that by (rule cell_in_range)
    with full vr have "cell N g a b \<noteq> 0" "0 \<le> cell N g a b" "cell N g a b \<le> N"
      by (auto simp add: fully_filled_def values_in_range_def list_all_iff)
    then show ?thesis by simp
  qed
  have "each_once N (map (\<lambda>(i, j). cell N g i j) u)" if u: "u \<in> set (unit_cells N s)" for u
  proof -
    let ?f = "\<lambda>(i, j). cell N g i j"
    note p = unit_cells_props [OF s N u]
    have inj: "inj_on ?f (set u)"
    proof (rule inj_onI)
      fix a b assume ab: "a \<in> set u" "b \<in> set u" "?f a = ?f b"
      obtain x1 y1 x2 y2 where q: "a = (x1, y1)" "b = (x2, y2)" by (cases a, cases b) auto
      from ab q p(3) p(4)
      have r: "0 \<le> x1 \<and> x1 < N \<and> 0 \<le> y1 \<and> y1 < N" "0 \<le> x2 \<and> x2 < N \<and> 0 \<le> y2 \<and> y2 < N"
        "same_unit s x1 y1 x2 y2" by blast+
      have "cell N g x1 y1 \<noteq> 0" using val [of x1 y1] r by auto
      with conflict_freeD [OF cf r(1,2) _ r(3)] ab q show "a = b" by auto
    qed
    have d: "distinct (map ?f u)" using p(1) inj by (simp add: distinct_map)
    have sub: "set (map ?f u) \<subseteq> {1..N}"
    proof
      fix v assume "v \<in> set (map ?f u)"
      then obtain a b where "(a, b) \<in> set u" "v = cell N g a b" by auto
      with p(3) [of a b] val [of a b] show "v \<in> {1..N}" by simp
    qed
    have "card (set (map ?f u)) = length (map ?f u)" using d by (rule distinct_card)
    also have "\<dots> = nat N" using p(2) by simp
    also have "\<dots> = card {1..N}" by simp
    finally have "set (map ?f u) = {1..N}"
      using sub by (intro card_subset_eq) auto
    with d show ?thesis
      by (simp add: each_once_def list_all_iff distinct_count_list)
  qed
  then show ?thesis
    by (simp add: uniqueness_def all_lines_unit_cells list_all_iff)
qed

lemma count_list_filter:
  "count_list (filter P xs) v = (if P v then count_list xs v else 0)"
  by (induction xs) auto

lemma count_one_distinct: "(\<forall>x\<in>set xs. count_list xs x = 1) \<Longrightarrow> distinct xs"
proof (induction xs)
  case Nil
  then show ?case by simp
next
  case (Cons a xs)
  from Cons.prems have "count_list xs a = 0" by simp
  then have a: "a \<notin> set xs" by (simp add: count_list_0_iff)
  have "\<forall>x\<in>set xs. count_list xs x = 1"
  proof
    fix x assume x: "x \<in> set xs"
    with a have "x \<noteq> a" by auto
    with Cons.prems x show "count_list xs x = 1" by auto
  qed
  with Cons.IH a show ?case by simp
qed

lemma each_once_distinct:
  assumes "each_once N l" "length l = nat N"
  shows "distinct l"
proof -
  let ?P = "\<lambda>v. v \<in> {1..N}"
  have one: "count_list l v = 1" if "v \<in> {1..N}" for v
    using assms(1) that by (simp add: each_once_def list_all_iff)
  have "length (filter ?P l) = sum (count_list (filter ?P l)) {1..N}"
    by (rule sum_count_set [symmetric]) auto
  also have "\<dots> = sum (\<lambda>v. 1) {1..N}"
    by (rule sum.cong) (simp_all add: count_list_filter one)
  also have "\<dots> = length l" using assms(2) by simp
  finally have "length (filter ?P l) = length l" .
  then have "\<forall>x\<in>set l. ?P x"
    by (metis length_filter_less less_irrefl)
  with one have "\<forall>x\<in>set l. count_list l x = 1" by blast
  then show ?thesis by (rule count_one_distinct)
qed

lemma uniqueness_no_duplicates:
  assumes wf: "well_formed N s g" and u: "uniqueness N s g"
  shows "no_duplicates N s g"
proof -
  from wf have s: "0 < s" and N: "s * s = N" by (auto simp add: well_formed_def)
  have "distinct (filter (\<lambda>v. v \<noteq> 0) (map (\<lambda>(i, j). cell N g i j) c))"
    if c: "c \<in> set (unit_cells N s)" for c
  proof -
    from u c have "each_once N (map (\<lambda>(i, j). cell N g i j) c)"
      by (simp add: uniqueness_def all_lines_unit_cells list_all_iff)
    moreover have "length (map (\<lambda>(i, j). cell N g i j) c) = nat N"
      using unit_cells_props(2) [OF s N c] by simp
    ultimately have "distinct (map (\<lambda>(i, j). cell N g i j) c)"
      by (rule each_once_distinct)
    then show ?thesis by (rule distinct_filter)
  qed
  then show ?thesis unfolding no_duplicates_iff by blast
qed

lemma keeps_prefilled_length: "keeps_prefilled m g \<Longrightarrow> length g = length m"
  by (simp add: keeps_prefilled_def list_all2_lengthD)

lemma keeps_prefilled_cell:
  assumes "keeps_prefilled m g" "int (length m) = N * N" "0 \<le> a \<and> a < N \<and> 0 \<le> b \<and> b < N"
    "cell N m a b \<noteq> 0"
  shows "cell N g a b = cell N m a b"
proof -
  have "nat (a + b * N) < length m"
    using flat_bound [of a N b] assms(2,3) by linarith
  with assms(1,4) show ?thesis
    by (simp add: keeps_prefilled_def list_all2_conv_all_nth cell_def)
qed

lemma conflict_free_keeps:
  assumes k: "keeps_prefilled m g" and l: "int (length m) = N * N" and cf: "conflict_free N s g"
  shows "conflict_free N s m"
proof -
  have "cell N m x1 y1 \<noteq> cell N m x2 y2"
    if r: "0 \<le> x1 \<and> x1 < N \<and> 0 \<le> y1 \<and> y1 < N" "0 \<le> x2 \<and> x2 < N \<and> 0 \<le> y2 \<and> y2 < N"
      and ne: "(x1, y1) \<noteq> (x2, y2)" and su: "same_unit s x1 y1 x2 y2"
      and nz: "cell N m x1 y1 \<noteq> 0" for x1 y1 x2 y2
  proof
    assume e: "cell N m x1 y1 = cell N m x2 y2"
    have g1: "cell N g x1 y1 = cell N m x1 y1"
      using k l r(1) nz by (rule keeps_prefilled_cell)
    have g2: "cell N g x2 y2 = cell N m x2 y2"
      using k l r(2) nz e by (intro keeps_prefilled_cell) auto
    from conflict_freeD [OF cf r ne su] g1 g2 nz e show False by simp
  qed
  then show ?thesis unfolding conflict_free_def by auto
qed

lemma solve_well_formed:
  "well_formed N s m \<Longrightarrow> solve N m maxd = run N maxd m 0 0 1"
  by (simp add: solve_def SudokuMap_def well_formed_def)

lemma well_formed_keeps:
  "well_formed N s m \<Longrightarrow> keeps_prefilled m g \<Longrightarrow> well_formed N s g"
  by (simp add: well_formed_def keeps_prefilled_length)

lemma solve_returns_filled:
  assumes wf: "well_formed N s m"
  shows "returns_filled (solve N m maxd)"
proof -
  from wf have "0 < N" by (auto simp add: well_formed_def)
  moreover have "prefix_filled m 0" by (simp add: prefix_filled_def)
  ultimately have "returns_filled (run N maxd m 0 0 1)"
    using run_returns_filled(1) [of N s m 0 0 maxd 1] wf by simp
  then show ?thesis by (simp add: solve_well_formed [OF wf])
qed

section \<open>Claims about the validity of the returned grid\<close>

text \<open>
  Claim C1, as stated, fails: pre-filled cells are never checked against each other. The
  grid below has values in \<open>[0, 4]\<close> and two cells with value 4 in one line; \<open>solve\<close>
  fills the one empty cell and returns a grid in which that line holds 4 twice.
\<close>

theorem prefilled_duplicate_returned_counterexample:
  "well_formed 4 2 [1, 2, 3, 4, 3, 4, 1, 2, 2, 1, 4, 3, 4, 4, 2, 0]
   \<and> values_in_range 4 [1, 2, 3, 4, 3, 4, 1, 2, 2, 1, 4, 3, 4, 4, 2, 0]
   \<and> solve 4 [1, 2, 3, 4, 3, 4, 1, 2, 2, 1, 4, 3, 4, 4, 2, 0] 1
       = [Inr (Some [1, 2, 3, 4, 3, 4, 1, 2, 2, 1, 4, 3, 4, 4, 2, 1],
               [1, 2, 3, 4, 3, 4, 1, 2, 2, 1, 4, 3, 4, 4, 2, 0])]
   \<and> \<not> uniqueness 4 2 [1, 2, 3, 4, 3, 4, 1, 2, 2, 1, 4, 3, 4, 4, 2, 1]"
  by code_simp

text \<open>
  Claim C1, amended. For a dimension \<open>N = s * s\<close> and an input grid of \<open>N * N\<close> values in
  \<open>[0, N]\<close> in which no line and no sub-block holds the same non-zero value twice, every
  grid that \<open>solve\<close> returns, at any depth limit, holds each value of \<open>1..N\<close> exactly once
  in each of the \<open>N\<close> lines of either kind and in each of the \<open>N\<close> sub-blocks.
\<close>

theorem solve_returns_valid_grid:
  assumes "well_formed N s m" "values_in_range N m" "no_duplicates N s m"
    "Inr (Some g, m') \<in> set (solve N m maxd)"
  shows "uniqueness N s g"
proof -
  from assms(1) have n: "0 < N" by (auto simp add: well_formed_def)
  from assms(4) have mem: "Inr (Some g, m') \<in> set (run N maxd m 0 0 1)"
    by (simp add: solve_well_formed [OF assms(1)])
  have k: "keeps_prefilled m g" using run_keeps(1) [of N maxd m 0 0 1] mem by blast
  have wf: "well_formed N s g" using assms(1) k by (rule well_formed_keeps)
  have full: "fully_filled g"
    using solve_returns_filled [OF assms(1), of maxd] assms(4) by (rule returns_filled_Some)
  have cf: "conflict_free N s m"
    using assms(3) no_duplicates_conflict_free [OF assms(1)] by simp
  have "conflict_free N s g \<and> values_in_range N g"
    using run_conflict_free(1) [of N s m 0 0 maxd 1] assms(1,2) cf n mem by blast
  with wf full show ?thesis by (intro uniqueness_conflict_free) auto
qed

theorem solve_returns_valid_grid_witness:
  "Inr (Some [1, 2, 3, 4, 3, 4, 1, 2, 2, 1, 4, 3, 4, 3, 2, 1],
        [1, 2, 0, 4, 3, 4, 1, 0, 2, 0, 4, 3, 4, 3, 2, 1])
     \<in> set (solve 4 [1, 2, 0, 4, 3, 4, 1, 0, 2, 0, 4, 3, 4, 3, 2, 1] 2)
   \<and> uniqueness 4 2 [1, 2, 3, 4, 3, 4, 1, 2, 2, 1, 4, 3, 4, 3, 2, 1]"
proof -
  have w: "well_formed 4 2 [1, 2, 0, 4, 3, 4, 1, 0, 2, 0, 4, 3, 4, 3, 2, 1]"
    by (simp add: well_formed_def)
  have v: "values_in_range 4 [1, 2, 0, 4, 3, 4, 1, 0, 2, 0, 4, 3, 4, 3, 2, 1]"
    by (simp add: values_in_range_def)
  have n: "no_duplicates 4 2 [1, 2, 0, 4, 3, 4, 1, 0, 2, 0, 4, 3, 4, 3, 2, 1]"
    by code_simp
  have mem: "Inr (Some [1, 2, 3, 4, 3, 4, 1, 2, 2, 1, 4, 3, 4, 3, 2, 1],
        [1, 2, 0, 4, 3, 4, 1, 0, 2, 0, 4, 3, 4, 3, 2, 1])
     \<in> set (solve 4 [1, 2, 0, 4, 3, 4, 1, 0, 2, 0, 4, 3, 4, 3, 2, 1] 2)"
    by code_simp
  from mem solve_returns_valid_grid [OF w v n mem] show ?thesis by simp
qed

text \<open>
  Claim C2, as stated, fails. The grid below holds the value 2 twice in one line; \<open>solve\<close>
  does not report it as unsolvable but fills the two empty cells and returns a grid that
  violates the uniqueness property.
\<close>

theorem duplicate_not_reported_counterexample:
  "\<not> no_duplicates 4 2 [2, 2, 3, 4, 3, 4, 1, 2, 2, 1, 0, 3, 4, 3, 2, 0]
   \<and> solve 4 [2, 2, 3, 4, 3, 4, 1, 2, 2, 1, 0, 3, 4, 3, 2, 0] 3
       = [Inr (Some [2, 2, 3, 4, 3, 4, 1, 2, 2, 1, 4, 3, 4, 3, 2, 1],
               [2, 2, 3, 4, 3, 4, 1, 2, 2, 1, 0, 3, 4, 3, 2, 0])]
   \<and> \<not> uniqueness 4 2 [2, 2, 3, 4, 3, 4, 1, 2, 2, 1, 4, 3, 4, 3, 2, 1]"
  by code_simp

text \<open>
  Claim C2, amended. For an input grid of dimension \<open>N = s * s\<close> with \<open>N * N\<close> cells that
  holds the same non-zero value twice in one line or one sub-block, \<open>solve\<close> does not
  crash: it has an outcome, and every outcome is a normal return that leaves the input
  as it was, either with no solution or with a fully filled grid. Such a grid keeps the
  pre-filled values, so it still holds the duplicate and violates the uniqueness
  property.
\<close>

theorem solve_with_duplicate_returns:
  assumes "well_formed N s m" "\<not> no_duplicates N s m"
  shows "solve N m maxd \<noteq> []
    \<and> (\<forall>out\<in>set (solve N m maxd). \<exists>r. out = Inr (r, m)
         \<and> (\<forall>g. r = Some g \<longrightarrow>
               fully_filled g \<and> keeps_prefilled m g \<and> \<not> no_duplicates N s g
               \<and> \<not> uniqueness N s g))"
proof -
  note rf = solve_returns_filled [OF assms(1), of maxd]
  note sv = solve_well_formed [OF assms(1), of maxd]
  from assms(1) have l: "int (length m) = N * N" by (auto simp add: well_formed_def)
  have ne: "solve N m maxd \<noteq> []" using rf unfolding returns_filled_iff by blast
  have "\<exists>r. out = Inr (r, m)
      \<and> (\<forall>g. r = Some g \<longrightarrow> fully_filled g \<and> keeps_prefilled m g
            \<and> \<not> no_duplicates N s g \<and> \<not> uniqueness N s g)"
    if o: "out \<in> set (solve N m maxd)" for out
  proof -
    from rf o obtain r m' where out: "out = Inr (r, m')"
      unfolding returns_filled_iff by blast
    with o have "m' = m" using run_frame(1) [of N maxd m 0 0 1] unfolding sv by blast
    moreover have "fully_filled g \<and> keeps_prefilled m g \<and> \<not> no_duplicates N s g
        \<and> \<not> uniqueness N s g" if r: "r = Some g" for g
    proof -
      from o out r have mem: "Inr (Some g, m') \<in> set (solve N m maxd)" by simp
      have full: "fully_filled g" using rf mem by (rule returns_filled_Some)
      have k: "keeps_prefilled m g"
        using run_keeps(1) [of N maxd m 0 0 1] mem unfolding sv by blast
      have wf: "well_formed N s g" using assms(1) k by (rule well_formed_keeps)
      have nd: "\<not> no_duplicates N s g"
      proof
        assume "no_duplicates N s g"
        then have "conflict_free N s g" using no_duplicates_conflict_free [OF wf] by simp
        with k l have "conflict_free N s m" by (rule conflict_free_keeps)
        with assms show False using no_duplicates_conflict_free [OF assms(1)] by simp
      qed
      then have "\<not> uniqueness N s g" using uniqueness_no_duplicates [OF wf] by blast
      with full k nd show ?thesis by blast
    qed
    ultimately show ?thesis using out by blast
  qed
  with ne show ?thesis by blast
qed

theorem solve_with_duplicate_returns_witness:
  "well_formed 4 2 [1, 2, 3, 3, 3, 4, 1, 2, 2, 1, 4, 3, 0, 3, 2, 1]
   \<and> \<not> no_duplicates 4 2 [1, 2, 3, 3, 3, 4, 1, 2, 2, 1, 4, 3, 0, 3, 2, 1]
   \<and> Inr (Some [1, 2, 3, 3, 3, 4, 1, 2, 2, 1, 4, 3, 4, 3, 2, 1],
           [1, 2, 3, 3, 3, 4, 1, 2, 2, 1, 4, 3, 0, 3, 2, 1])
       \<in> set (solve 4 [1, 2, 3, 3, 3, 4, 1, 2, 2, 1, 4, 3, 0, 3, 2, 1] 2)
   \<and> fully_filled [1, 2, 3, 3, 3, 4, 1, 2, 2, 1, 4, 3, 4, 3, 2, 1]
   \<and> keeps_prefilled [1, 2, 3, 3, 3, 4, 1, 2, 2, 1, 4, 3, 0, 3, 2, 1]
       [1, 2, 3, 3, 3, 4, 1, 2, 2, 1, 4, 3, 4, 3, 2, 1]
   \<and> \<not> no_duplicates 4 2 [1, 2, 3, 3, 3, 4, 1, 2, 2, 1, 4, 3, 4, 3, 2, 1]
   \<and> \<not> uniqueness 4 2 [1, 2, 3, 3, 3, 4, 1, 2, 2, 1, 4, 3, 4, 3, 2, 1]"
proof -
  have w: "well_formed 4 2 [1, 2, 3, 3, 3, 4, 1, 2, 2, 1, 4, 3, 0, 3, 2, 1]"
    by (simp add: well_formed_def)
  have n: "\<not> no_duplicates 4 2 [1, 2, 3, 3, 3, 4, 1, 2, 2, 1, 4, 3, 0, 3, 2, 1]"
    by code_simp
  have mem: "Inr (Some [1, 2, 3, 3, 3, 4, 1, 2, 2, 1, 4, 3, 4, 3, 2, 1],
           [1, 2, 3, 3, 3, 4, 1, 2, 2, 1, 4, 3, 0, 3, 2, 1])
       \<in> set (solve 4 [1, 2, 3, 3, 3, 4, 1, 2, 2, 1, 4, 3, 0, 3, 2, 1] 2)"
    by code_simp
  from w n mem solve_with_duplicate_returns [OF w n, of 2] show ?thesis by blast
qed

end
